theory Spec2Isabelle
  imports Main
begin

section \<open>Python values used by the converter\<close>

text \<open>
  The program is one Python module, \<^verbatim>\<open>XMLtoJSON.py\<close>. Its strings are modelled as
  \<^typ>\<open>string\<close>, one \<^typ>\<open>char\<close> per code point below 256; its unbounded integers as
  \<^typ>\<open>int\<close> (or \<^typ>\<open>nat\<close> where the source only counts upwards from zero). The
  exceptions the code can raise are values of \<open>py_error\<close>, and a function that can raise
  returns \<open>py_error + 'a\<close>.
\<close>

datatype py_error = IndexError | ValueError | AttributeError

text \<open>\<^verbatim>\<open>str(n)\<close> for a non-negative and for an arbitrary integer.\<close>

fun str_nat :: "nat \<Rightarrow> string" where
  "str_nat n =
     (if n < 10 then [''0123456789'' ! n]
      else str_nat (n div 10) @ [''0123456789'' ! (n mod 10)])"

declare str_nat.simps [simp del]

definition str_int :: "int \<Rightarrow> string" where
  "str_int i = (if i < 0 then CHR ''-'' # str_nat (nat (- i)) else str_nat (nat i))"

text \<open>
  \<^verbatim>\<open>str.isdigit\<close> and \<^verbatim>\<open>str.isprintable\<close> on code points below 256: the digits are
  \<^verbatim>\<open>0\<close> to \<^verbatim>\<open>9\<close> and the superscripts U+00B2, U+00B3 and U+00B9; the non-printable
  characters are the controls, the no-break space U+00A0 and the soft hyphen U+00AD.
  \<^verbatim>\<open>isdigit\<close> is false on the empty string, \<^verbatim>\<open>isprintable\<close> is true on it.
\<close>

definition digit_char :: "char \<Rightarrow> bool" where
  "digit_char c =
     (let n = (of_char c :: nat) in (48 \<le> n \<and> n \<le> 57) \<or> n = 178 \<or> n = 179 \<or> n = 185)"

definition isdigit :: "string \<Rightarrow> bool" where
  "isdigit s = (s \<noteq> [] \<and> list_all digit_char s)"

definition printable_char :: "char \<Rightarrow> bool" where
  "printable_char c =
     (let n = (of_char c :: nat) in (32 \<le> n \<and> n \<le> 126) \<or> (161 \<le> n \<and> n \<noteq> 173))"

definition isprintable :: "string \<Rightarrow> bool" where
  "isprintable s = list_all printable_char s"

text \<open>
  \<^verbatim>\<open>s.replace(c, "", count)\<close> for a one-character \<^verbatim>\<open>c\<close>: the first \<^verbatim>\<open>count\<close>
  occurrences are removed, all of them when \<^verbatim>\<open>count\<close> is negative.
\<close>

fun remove_first :: "nat \<Rightarrow> char \<Rightarrow> string \<Rightarrow> string" where
  "remove_first 0 c s = s"
| "remove_first (Suc n) c [] = []"
| "remove_first (Suc n) c (x # s) =
     (if x = c then remove_first n c s else x # remove_first (Suc n) c s)"

definition replace_char :: "string \<Rightarrow> char \<Rightarrow> int \<Rightarrow> string" where
  "replace_char s c count =
     (if count < 0 then filter (\<lambda>x. x \<noteq> c) s else remove_first (nat count) c s)"

text \<open>\<^verbatim>\<open>xs.index(v)\<close>: the first position of \<^verbatim>\<open>v\<close>, \<^verbatim>\<open>ValueError\<close> when absent.\<close>

fun index_of :: "'a list \<Rightarrow> 'a \<Rightarrow> nat option" where
  "index_of [] v = None"
| "index_of (x # xs) v = (if x = v then Some 0 else map_option Suc (index_of xs v))"

section \<open>Module-level helpers\<close>

text \<open>
  \<^verbatim>\<open>matching_tag\<close> reads \<^verbatim>\<open>tag[1]\<close>, which raises \<^verbatim>\<open>IndexError\<close> on a string shorter
  than two characters; the slices never raise.
\<close>

definition matching_tag :: "string \<Rightarrow> py_error + string" where
  "matching_tag tag =
     (if length tag < 2 then Inl IndexError
      else if tag ! 1 = CHR ''/'' then Inr (''<'' @ drop 2 tag)
      else Inr (''</'' @ drop 1 tag))"

text \<open>Applying \<^verbatim>\<open>matching_tag\<close> to its own result, an exception of the first call passed on.\<close>

definition matching_tag_twice :: "string \<Rightarrow> py_error + string" where
  "matching_tag_twice tag =
     (case matching_tag tag of Inl e \<Rightarrow> Inl e | Inr m \<Rightarrow> matching_tag m)"

text \<open>
  \<^verbatim>\<open>last_index\<close>: \<^verbatim>\<open>len(_list) - _list[-1::-1].index(_value) - 1\<close>, the position of the
  last occurrence; the \<^verbatim>\<open>ValueError\<close> of \<^verbatim>\<open>index\<close> is \<open>None\<close>.
\<close>

definition last_index :: "'a list \<Rightarrow> 'a \<Rightarrow> nat option" where
  "last_index xs v = map_option (\<lambda>i. length xs - i - 1) (index_of (rev xs) v)"

section \<open>The schema tree\<close>

text \<open>
  \<^verbatim>\<open>XMLStructureNode\<close>: the tag, the \<^verbatim>\<open>repeatable\<close> flag, the allowed values
  (\<open>None\<close> when every value is allowed) and the children. The \<^verbatim>\<open>parent\<close>
  back-reference, which \<^verbatim>\<open>add_child\<close> sets, is not stored in the tree: the one function that
  reads it, \<^verbatim>\<open>set_value\<close>, gets the node from \<^verbatim>\<open>tag_to_node\<close>, which here returns the node
  together with its parent (\<open>None\<close> for the top node).
\<close>

datatype XMLStructureNode =
  Node (node_value: string) (repeatable: bool) (allowed_values: "string list option")
       (children: "XMLStructureNode list")

definition has_child :: "XMLStructureNode \<Rightarrow> bool" where
  "has_child n = (length (children n) > 0)"

definition find_child :: "XMLStructureNode \<Rightarrow> string \<Rightarrow> XMLStructureNode option" where
  "find_child n v = List.find (\<lambda>child. node_value child = v) (children n)"

text \<open>The schema the module builds before it starts the parser and the converter.\<close>

definition field_tag :: XMLStructureNode where
  "field_tag = Node ''<field>'' True None
     [Node ''<name>'' False None [],
      Node ''<type>'' False (Some [''int'', ''string'']) [],
      Node ''<value>'' False None []]"

definition object_tag :: XMLStructureNode where
  "object_tag = Node ''<object>'' True None [Node ''<obj_name>'' False None [], field_tag]"

section \<open>The depth stack\<close>

text \<open>
  \<^verbatim>\<open>XMLStructureStack\<close> wraps an unbounded \<^verbatim>\<open>LifoQueue\<close> (never full). Its field
  \<^verbatim>\<open>top\<close> caches the most recently pushed node still on the stack: \<^verbatim>\<open>push\<close> sets it
  to the pushed node and \<^verbatim>\<open>pop\<close> re-reads it from the queue. The stack is the list of its
  nodes, most recent first, and \<^verbatim>\<open>top\<close> is the function \<open>stack_top\<close> of that list.
  \<^verbatim>\<open>pop\<close> on the empty stack changes nothing.
\<close>

type_synonym XMLStructureStack = "XMLStructureNode list"

definition stack_top :: "XMLStructureStack \<Rightarrow> XMLStructureNode option" where
  "stack_top s = (case s of [] \<Rightarrow> None | t # _ \<Rightarrow> Some t)"

definition push :: "XMLStructureNode \<Rightarrow> XMLStructureStack \<Rightarrow> XMLStructureStack" where
  "push node s = node # s"

definition pop :: "XMLStructureStack \<Rightarrow> XMLStructureStack" where
  "pop s = (case s of [] \<Rightarrow> [] | popped # rest \<Rightarrow> rest)"

section \<open>Records\<close>

text \<open>
  \<^verbatim>\<open>XMLObject\<close>: the schema it was built from and the two parallel lists. The list \<^verbatim>\<open>values\<close> is \<open>obj_values\<close>; an unset value
  (\<^verbatim>\<open>None\<close>) is \<open>None\<close>.
\<close>

record XMLObject =
  xml_structure :: XMLStructureNode
  tags :: "string list"
  obj_values :: "string option list"

text \<open>\<^verbatim>\<open>build\<close> appends one unset slot for every leaf below the node, in schema order.\<close>

fun build :: "XMLStructureNode \<Rightarrow> XMLObject \<Rightarrow> XMLObject" where
  "build (Node v r a cs) obj =
     (if length cs > 0 then fold build cs obj
      else obj\<lparr>tags := tags obj @ [v], obj_values := obj_values obj @ [None]\<rparr>)"

definition new_XMLObject :: "XMLStructureNode \<Rightarrow> XMLObject" where
  "new_XMLObject s = build s \<lparr>xml_structure = s, tags = [], obj_values = []\<rparr>"

text \<open>The \<^verbatim>\<open>for\<close> loop of \<^verbatim>\<open>tag_to_node\<close>: the first child search that finds a node.\<close>

fun first_found :: "'a option list \<Rightarrow> 'a option" where
  "first_found [] = None"
| "first_found (None # rs) = first_found rs"
| "first_found (Some r # rs) = Some r"

fun tag_to_node ::
  "XMLStructureNode option \<Rightarrow> XMLStructureNode \<Rightarrow> string
     \<Rightarrow> (XMLStructureNode \<times> XMLStructureNode option) option" where
  "tag_to_node parent (Node v r a cs) t =
     (if v = t then Some (Node v r a cs, parent)
      else first_found (map (\<lambda>child. tag_to_node (Some (Node v r a cs)) child t) cs))"

text \<open>
  \<^verbatim>\<open>get_value\<close>: never called with \<^verbatim>\<open>starting_index = None\<close>; a negative start counts
  from the end as \<^verbatim>\<open>list.index\<close> does. The \<^verbatim>\<open>ValueError\<close> of \<^verbatim>\<open>index\<close> is caught by
  the source, the \<^verbatim>\<open>IndexError\<close> of \<^verbatim>\<open>self.values[index]\<close> is not.
\<close>

definition get_value ::
  "XMLObject \<Rightarrow> string \<Rightarrow> int \<Rightarrow> py_error + (string option \<times> int)" where
  "get_value obj tag starting_index =
     (if starting_index \<ge> int (length (tags obj)) then Inr (None, - 1)
      else
        let start = (if starting_index < 0
                     then nat (max 0 (int (length (tags obj)) + starting_index))
                     else nat starting_index)
        in case index_of (drop start (tags obj)) tag of
             None \<Rightarrow> Inr (None, - 1)
           | Some k \<Rightarrow>
               (if start + k < length (obj_values obj)
                then Inr (obj_values obj ! (start + k), int (start + k))
                else Inl IndexError))"

text \<open>
  The tail of \<^verbatim>\<open>set_value\<close>, from \<^verbatim>\<open>if node.allowed_values is not None\<close> on: the value is
  stored unless the node lists its allowed values and the value is not one of them.
\<close>

definition store_value ::
  "XMLObject \<Rightarrow> nat \<Rightarrow> string \<Rightarrow> (py_error + bool) \<times> XMLObject" where
  "store_value obj index v =
     (if index < length (obj_values obj)
      then (Inr True, obj\<lparr>obj_values := (obj_values obj)[index := Some v]\<rparr>)
      else (Inl IndexError, obj))"

definition assign_value ::
  "XMLObject \<Rightarrow> XMLStructureNode \<Rightarrow> nat \<Rightarrow> string \<Rightarrow> string \<Rightarrow> (string \<Rightarrow> string \<Rightarrow> 'e)
     \<Rightarrow> (py_error + bool) \<times> XMLObject \<times> 'e list" where
  "assign_value obj node index tag v error =
     (case allowed_values node of
        Some allowed \<Rightarrow>
          (if v \<in> set allowed
           then (fst (store_value obj index v), snd (store_value obj index v), [])
           else (Inr False, obj,
                 [error (''Value \"'' @ v @ ''\" is not allowed in this tag'') tag]))
      | None \<Rightarrow> (fst (store_value obj index v), snd (store_value obj index v), []))"

text \<open>
  \<^verbatim>\<open>set_value\<close> returns what the call returned or raised, the record as the call left it
  and the messages it passed to \<^verbatim>\<open>error\<close>. \<^verbatim>\<open>node.parent.repeatable\<close> raises on the top
  node, whose parent is \<^verbatim>\<open>None\<close>, and \<^verbatim>\<open>node.allowed_values\<close> raises when no node has the
  tag.
\<close>

definition set_value ::
  "XMLObject \<Rightarrow> string \<Rightarrow> string \<Rightarrow> (string \<Rightarrow> string \<Rightarrow> 'e)
     \<Rightarrow> (py_error + bool) \<times> XMLObject \<times> 'e list" where
  "set_value obj tag v error =
     (case last_index (tags obj) tag of
        None \<Rightarrow> (Inl ValueError, obj, [])
      | Some index \<Rightarrow>
          (if index \<ge> length (obj_values obj) then (Inl IndexError, obj, [])
           else if obj_values obj ! index \<noteq> None then
             (case tag_to_node None (xml_structure obj) tag of
                None \<Rightarrow> (Inr False, obj, [error ''Duplicate value definition'' tag])
              | Some (node, None) \<Rightarrow> (Inl AttributeError, obj, [])
              | Some (node, Some parent) \<Rightarrow>
                  (if repeatable parent then
                     (case last_index (tags (build parent obj)) tag of
                        None \<Rightarrow> (Inl ValueError, build parent obj, [])
                      | Some index' \<Rightarrow> assign_value (build parent obj) node index' tag v error)
                   else (Inr False, obj, [error ''Duplicate value definition'' tag])))
           else
             (case tag_to_node None (xml_structure obj) tag of
                None \<Rightarrow> (Inl AttributeError, obj, [])
              | Some (node, _) \<Rightarrow> assign_value obj node index tag v error)))"

text \<open>The leaf tags below a node, in schema order: the slots one call of \<^verbatim>\<open>build\<close> appends.\<close>

fun leaf_tags :: "XMLStructureNode \<Rightarrow> string list" where
  "leaf_tags (Node v r a cs) = (if length cs > 0 then concat (map leaf_tags cs) else [v])"

section \<open>The lexer's diagnostics\<close>

text \<open>
  \<^verbatim>\<open>Parser.error\<close> reads \<^verbatim>\<open>char_counter\<close>, the number of characters read from the input
  so far, and puts one message on the parser's error stream. \<open>error_number\<close> is the
  \<^verbatim>\<open>number\<close> it computes, \<open>parser_error\<close> the message.
\<close>

abbreviation NL :: char where "NL \<equiv> CHR 0x0A"
abbreviation TAB :: char where "TAB \<equiv> CHR 0x09"
abbreviation QUOTE :: char where "QUOTE \<equiv> CHR 0x22"

definition error_number :: "nat \<Rightarrow> string \<Rightarrow> string \<Rightarrow> int" where
  "error_number char_counter message s =
     (if length message > char_counter then 0
      else int char_counter - int (length s))"

definition parser_error :: "nat \<Rightarrow> string \<Rightarrow> string \<Rightarrow> string" where
  "parser_error char_counter message s =
     (if \<not> isprintable s
      then ''Char '' @ str_int (error_number char_counter message s) @ '': '' @ message @ [NL]
      else ''Char '' @ str_int (error_number char_counter message s) @ '': '' @ message
             @ '': '' @ [QUOTE] @ s @ [QUOTE, NL])"

section \<open>The converter\<close>

text \<open>
  The state of a \<^verbatim>\<open>Converter\<close>. \<open>queue\<close> is the parser's queue, \<^verbatim>\<open>self.parser.queue\<close>,
  as it stands: the strings the lexer has put and the converter has not read, oldest
  first. The lexer runs in a thread of its own; what it puts later, and its flag
  \<^verbatim>\<open>parser.running\<close>, are arguments of the loop of \<^verbatim>\<open>run\<close> below. \<open>error_stream\<close> lists
  the messages put on the converter's error stream, oldest first. \<open>objects\<close> holds the records as they were when appended:
  the source appends a reference to \<^verbatim>\<open>current_object\<close>, and changes that record afterwards
  only if a node below the top node carries the top node's tag, which the bundled schema
  excludes.
\<close>

record Converter =
  stack :: XMLStructureStack
  error_stream :: "string list"
  queue :: "string list"
  string_counter :: nat
  conv_structure :: XMLStructureNode
  current_object :: XMLObject
  objects :: "XMLObject list"

definition new_Converter :: "string list \<Rightarrow> XMLStructureNode \<Rightarrow> Converter" where
  "new_Converter q s =
     \<lparr>stack = [], error_stream = [], queue = q, string_counter = 0, conv_structure = s,
      current_object = new_XMLObject s, objects = []\<rparr>"

text \<open>\<^verbatim>\<open>Converter.error\<close> with a string (no caller passes \<^verbatim>\<open>None\<close>), and \<^verbatim>\<open>obj_error\<close>.\<close>

definition error_message :: "nat \<Rightarrow> string \<Rightarrow> string \<Rightarrow> string" where
  "error_message counter message s =
     ''String '' @ str_nat counter @ '': '' @ message @ '': '' @ [QUOTE] @ s @ [QUOTE, NL]"

definition error :: "Converter \<Rightarrow> string \<Rightarrow> string \<Rightarrow> Converter" where
  "error c message s =
     c\<lparr>error_stream := error_stream c @ [error_message (string_counter c) message s]\<rparr>"

definition obj_error_message :: "int \<Rightarrow> string \<Rightarrow> string" where
  "obj_error_message number message =
     (if number = - 1 then message @ [NL]
      else ''Object '' @ str_int number @ '': '' @ message @ [NL])"

definition read_string :: "Converter \<Rightarrow> string option \<times> Converter" where
  "read_string c =
     (case queue c of
        [] \<Rightarrow> (None, c)
      | s # q \<Rightarrow> (Some s, c\<lparr>queue := q, string_counter := string_counter c + 1\<rparr>))"

subsection \<open>Serialization: \<^verbatim>\<open>convert\<close>\<close>

text \<open>The lines \<^verbatim>\<open>convert\<close> puts on its queue.\<close>

definition json_open :: string where
  "json_open = [CHR ''{'', NL]"

definition json_close :: string where
  "json_close = ''}''"

definition object_header :: "string \<Rightarrow> string" where
  "object_header object_name = [TAB] @ '' '' @ [QUOTE] @ object_name @ [QUOTE] @ '': {'' @ [NL]"

definition object_close :: string where
  "object_close = [TAB] @ '' },'' @ [NL]"

definition field_line :: "string \<Rightarrow> string \<Rightarrow> string \<Rightarrow> string" where
  "field_line f_name f_type f_value =
     [TAB, TAB, QUOTE] @ f_name @ [QUOTE] @ '': ''
       @ (if f_type = ''string'' then [QUOTE] else []) @ f_value
       @ (if f_type = ''string'' then [QUOTE] else []) @ '','' @ [NL]"

text \<open>
  What \<^verbatim>\<open>convert\<close> accumulates: the lines of \<^verbatim>\<open>json\<close>, the names in
  \<^verbatim>\<open>object_names\<close> and the messages it sent through \<^verbatim>\<open>obj_error\<close>.
\<close>

record convert_state =
  json :: "string list"
  object_names :: "string list"
  obj_errors :: "string list"

definition put_error :: "convert_state \<Rightarrow> nat \<Rightarrow> string \<Rightarrow> convert_state" where
  "put_error st object_number message =
     st\<lparr>obj_errors := obj_errors st @ [obj_error_message (int object_number) message]\<rparr>"

definition begin_object :: "convert_state \<Rightarrow> string \<Rightarrow> convert_state" where
  "begin_object st object_name =
     st\<lparr>object_names := object_names st @ [object_name],
        json := json st @ [object_header object_name]\<rparr>"

definition put_line :: "convert_state \<Rightarrow> string \<Rightarrow> convert_state" where
  "put_line st line = st\<lparr>json := json st @ [line]\<rparr>"

text \<open>
  One pass through the body of the \<^verbatim>\<open>while index != -1\<close> loop over the field groups of
  one record, the loop's test included: an exception, the loop's exit (by the test or by
  \<^verbatim>\<open>break\<close>) with \<^verbatim>\<open>correct_object\<close> and the state, or the values of \<^verbatim>\<open>index\<close>,
  \<^verbatim>\<open>correct_object\<close> and the state with which the next pass starts.
\<close>

datatype loop_step =
  Raised py_error
| Finished bool convert_state
| Continue int bool convert_state

definition fields_step ::
  "XMLObject \<Rightarrow> nat \<Rightarrow> string \<Rightarrow> int \<Rightarrow> bool \<Rightarrow> convert_state \<Rightarrow> loop_step" where
  "fields_step xml_object object_number object_name index correct_object st =
     (if index = - 1 then Finished correct_object st
      else
        (case get_value xml_object ''<name>'' (index + 1) of
           Inl e \<Rightarrow> Raised e
         | Inr (f_name, index1) \<Rightarrow>
             (if index1 = - 1 then Finished correct_object st
              else
                (case get_value xml_object ''<type>'' (index1 + 1) of
                   Inl e \<Rightarrow> Raised e
                 | Inr (f_type, index2) \<Rightarrow>
                     (case get_value xml_object ''<value>'' (index2 + 1) of
                        Inl e \<Rightarrow> Raised e
                      | Inr (f_value, index3) \<Rightarrow>
                          (if f_name = None \<or> f_type = None \<or> f_value = None then
                             Continue index3 correct_object
                               (put_error st object_number ''Required fields were not filled'')
                           else if the f_type = ''int'' \<and> \<not> isdigit (the f_value) then
                             Continue index3 correct_object
                               (put_error st object_number
                                  (''Field value is not an integer: '' @ [QUOTE] @ the f_value
                                     @ [QUOTE]))
                           else
                             Continue index3 True
                               (put_line
                                  (if \<not> correct_object then begin_object st object_name
                                   else st)
                                  (field_line (the f_name) (the f_type) (the f_value)))))))))"

text \<open>
  The loop. Nothing in it makes \<^verbatim>\<open>index\<close> grow (after a failed search for \<^verbatim>\<open><type>\<close>
  the search for \<^verbatim>\<open><value>\<close> starts again at position 0), so on some slot lists it runs
  for ever: the result \<open>None\<close>. \<open>Some (Inl e)\<close> is an exception,
  \<open>Some (Inr (correct_object, st))\<close> the state at the loop's exit.
\<close>

partial_function (option) fields_loop ::
  "XMLObject \<Rightarrow> nat \<Rightarrow> string \<Rightarrow> int \<Rightarrow> bool \<Rightarrow> convert_state
     \<Rightarrow> (py_error + bool \<times> convert_state) option" where
  "fields_loop xml_object object_number object_name index correct_object st =
     (case fields_step xml_object object_number object_name index correct_object st of
        Raised e \<Rightarrow> Some (Inl e)
      | Finished correct_object' st' \<Rightarrow> Some (Inr (correct_object', st'))
      | Continue index' correct_object' st' \<Rightarrow>
          fields_loop xml_object object_number object_name index' correct_object' st')"

declare fields_loop.simps [code]

text \<open>
  The body of \<^verbatim>\<open>for xml_object in self.objects\<close>, with \<^verbatim>\<open>object_number\<close> already
  incremented.
\<close>

definition convert_object ::
  "XMLObject \<Rightarrow> nat \<Rightarrow> convert_state \<Rightarrow> (py_error + convert_state) option" where
  "convert_object xml_object object_number st =
     (case get_value xml_object ''<obj_name>'' 0 of
        Inl e \<Rightarrow> Some (Inl e)
      | Inr (object_name, index) \<Rightarrow>
          if (case object_name of None \<Rightarrow> False | Some n \<Rightarrow> n \<in> set (object_names st)) then
            Some (Inr (put_error st object_number
                        (''Duplicate object name: '' @ [QUOTE] @ the object_name @ [QUOTE])))
          else if object_name \<noteq> None then
            (case fields_loop xml_object object_number (the object_name) index False st of
               None \<Rightarrow> None
             | Some (Inl e) \<Rightarrow> Some (Inl e)
             | Some (Inr (correct_object, st')) \<Rightarrow>
                 Some (Inr (if correct_object then put_line st' object_close else st')))
          else Some (Inr (put_error st object_number ''Object name was not set'')))"

fun convert_objects ::
  "XMLObject list \<Rightarrow> nat \<Rightarrow> convert_state \<Rightarrow> (py_error + convert_state) option" where
  "convert_objects [] object_number st = Some (Inr st)"
| "convert_objects (xml_object # rest) object_number st =
     (case convert_object xml_object (object_number + 1) st of
        None \<Rightarrow> None
      | Some (Inl e) \<Rightarrow> Some (Inl e)
      | Some (Inr st') \<Rightarrow> convert_objects rest (object_number + 1) st')"

text \<open>\<^verbatim>\<open>convert\<close>: the lines of the queue it returns and the messages it sent.\<close>

definition convert :: "XMLObject list \<Rightarrow> (py_error + string list \<times> string list) option" where
  "convert objs =
     (case convert_objects objs 0 \<lparr>json = [json_open], object_names = [], obj_errors = []\<rparr> of
        None \<Rightarrow> None
      | Some (Inl e) \<Rightarrow> Some (Inl e)
      | Some (Inr st) \<Rightarrow> Some (Inr (json st @ [json_close], obj_errors st)))"

subsection \<open>Serialization: \<^verbatim>\<open>flush\<close>\<close>

definition no_trailing_comma :: "string list" where
  "no_trailing_comma = [''}'', [TAB] @ '' },'' @ [NL]]"

text \<open>
  The \<^verbatim>\<open>while not json.empty()\<close> loop and the final \<^verbatim>\<open>write(string2)\<close>: the strings
  written after the first, in order. The arguments are \<^verbatim>\<open>string2\<close> and the rest of the
  queue.
\<close>

fun flush_loop :: "string \<Rightarrow> string list \<Rightarrow> string list" where
  "flush_loop string2 [] = [string2]"
| "flush_loop string2 (next_line # rest) =
     (if next_line \<in> set no_trailing_comma
      then replace_char string2 CHR '','' (int (length string2) - 2)
      else string2) # flush_loop next_line rest"

text \<open>
  \<^verbatim>\<open>flush\<close> returns the strings written to the output file (\<open>None\<close> when the file is not
  opened) and the messages it sent. On a queue of one line the second \<^verbatim>\<open>json.get()\<close> waits
  for ever: the result \<open>None\<close>. A file that cannot be opened is outside the model.
\<close>

definition output_filename :: string where
  "output_filename = ''output.json''"

definition flush :: "nat \<Rightarrow> string list \<Rightarrow> (string list option \<times> string list) option" where
  "flush counter lines =
     (case lines of
        [] \<Rightarrow> Some (None, [error_message counter ''Nothing to write to file'' output_filename])
      | [string1] \<Rightarrow> None
      | [string1, string2] \<Rightarrow>
          Some (None,
                [obj_error_message (- 1) ''Final object: JSON body is empty, nothing to write''])
      | string1 # string2 # rest \<Rightarrow> Some (Some (string1 # flush_loop string2 rest), []))"

subsection \<open>Validation: the loop of \<^verbatim>\<open>run\<close>\<close>

text \<open>
  The two recovery loops of \<^verbatim>\<open>run\<close> are the same code; the argument is the stack after the
  \<^verbatim>\<open>pop\<close> that precedes the loop. \<^verbatim>\<open>self.stack.top == self.structure\<close> compares
  identities; a node of a tree is the top node itself when it equals it, a proper
  subtree being smaller.
\<close>

function recovery_loop ::
  "XMLStructureNode \<Rightarrow> string \<Rightarrow> XMLStructureStack \<Rightarrow> XMLStructureStack" where
  "recovery_loop root s st =
     (case stack_top st of
        None \<Rightarrow> st
      | Some t \<Rightarrow>
          (case find_child t s of
             Some child_node \<Rightarrow> push child_node st
           | None \<Rightarrow>
               if s = node_value root \<and> t = root then st
               else recovery_loop root s (pop st)))"
  by pat_completeness auto
termination
  by (relation "measure (\<lambda>(root, s, st). length st)")
     (auto simp: stack_top_def pop_def split: list.splits)

declare recovery_loop.simps [simp del]

text \<open>
  One pass through the body of \<^verbatim>\<open>while self.parser.running or not
  self.parser.queue.empty()\<close>. An exception ends the run: \<^verbatim>\<open>matching_tag\<close> on a schema tag
  shorter than two characters, \<^verbatim>\<open>value[0]\<close> on an empty string, or one raised by
  \<^verbatim>\<open>set_value\<close>.
\<close>

definition iteration :: "Converter \<Rightarrow> py_error + Converter" where
  "iteration c =
     (case stack_top (stack c) of
        Some t \<Rightarrow>
          (case read_string c of
             (None, c1) \<Rightarrow> Inr c1
           | (Some string, c1) \<Rightarrow>
               (case matching_tag (node_value t) of
                  Inl e \<Rightarrow> Inl e
                | Inr closing \<Rightarrow>
                    if string = closing then
                      Inr (c1\<lparr>objects :=
                                 (if node_value t = node_value (conv_structure c1)
                                  then objects c1 @ [current_object c1] else objects c1),
                               stack := pop (stack c1)\<rparr>)
                    else if length string > 2 \<and> string ! 1 = CHR ''/'' then
                      Inr (error c1 (''Not a proper closing tag to '' @ node_value t) string)
                    else if has_child t then
                      (case find_child t string of
                         Some child_node \<Rightarrow> Inr (c1\<lparr>stack := push child_node (stack c1)\<rparr>)
                       | None \<Rightarrow>
                           if node_value t = string then
                             Inr (error c1 ''Current tag was opened again'' string)
                           else
                             Inr ((error c1 (''This does not belong after '' @ node_value t
                                              @ '' tag'') string)
                                  \<lparr>stack := recovery_loop (conv_structure c1) string
                                              (pop (stack c1))\<rparr>))
                    else if string = [] then Inl IndexError
                    else if string ! 0 = CHR ''<'' then
                      Inr ((error c1 ''Found tag instead of value'' string)
                           \<lparr>stack := recovery_loop (conv_structure c1) string (pop (stack c1))\<rparr>)
                    else
                      (case set_value (current_object c1) (node_value t) string
                              (error_message (string_counter c1)) of
                         (Inl e, obj, messages) \<Rightarrow> Inl e
                       | (Inr ok, obj, messages) \<Rightarrow>
                           (case read_string (c1\<lparr>current_object := obj,
                                                 error_stream := error_stream c1 @ messages\<rparr>) of
                              (None, c2) \<Rightarrow> Inr c2
                            | (Some closing_tag, c2) \<Rightarrow>
                                if closing_tag = closing then Inr (c2\<lparr>stack := pop (stack c2)\<rparr>)
                                else
                                  Inr ((error c2 (''Not a proper closing tag to '' @ node_value t)
                                          closing_tag)
                                       \<lparr>stack := pop (stack c2)\<rparr>)))))
      | None \<Rightarrow>
          (case read_string c of
             (None, c1) \<Rightarrow> Inr c1
           | (Some string, c1) \<Rightarrow>
               if string = node_value (conv_structure c1) then
                 Inr (c1\<lparr>stack := push (conv_structure c1) (stack c1),
                         current_object := new_XMLObject (conv_structure c1)\<rparr>)
               else
                 Inr (error c1 (''Found text before '' @ node_value (conv_structure c1)
                                 @ '' tag was opened'') string)))"

text \<open>
  The loop of \<^verbatim>\<open>run\<close>, \<^verbatim>\<open>while self.parser.running or not self.parser.queue.empty()\<close>,
  runs beside the lexer's thread. \<open>queue\<close> holds the strings that are on the queue when
  the loop starts. \<open>arrivals\<close> lists what the lexer puts while the loop runs: one batch,
  possibly empty, before every pass through the body made while the lexer still works.
  A string put between the two reads of a pass is read by that pass exactly when the
  first read found a string, so it is counted with the batch before the pass. While the
  lexer works the flag is \<^verbatim>\<open>True\<close> and the body runs whatever the queue holds. With no
  batch left the lexer has ended, and its flag reads \<open>running\<close> from then on:
  \<^verbatim>\<open>False\<close> when the assignment \<^verbatim>\<open>self.running = False\<close> of the thread was the last one,
  \<^verbatim>\<open>True\<close> when the thread had ended before \<^verbatim>\<open>Parser.__init__\<close>, which starts the thread
  first, came to its \<^verbatim>\<open>self.running = True\<close>. With the flag \<^verbatim>\<open>True\<close> and the queue empty
  the body changes nothing and the loop goes on for ever: the result \<open>None\<close>. An
  exception ends the run. The thread clears its flag after its last \<^verbatim>\<open>put\<close>, except for a
  value that ends the input, which it puts afterwards; that the loop can end before such
  a value arrives is left out of the model.
\<close>

function run_loop ::
  "bool \<Rightarrow> string list list \<Rightarrow> Converter \<Rightarrow> (py_error + Converter) option" where
  "run_loop running (batch # arrivals) c =
     (case iteration (c\<lparr>queue := queue c @ batch\<rparr>) of
        Inl e \<Rightarrow> Some (Inl e)
      | Inr c' \<Rightarrow> run_loop running arrivals c')"
| "run_loop running [] c =
     (if running \<or> queue c \<noteq> [] then
        (if queue c = [] then None
         else case iteration c of
                Inl e \<Rightarrow> Some (Inl e)
              | Inr c' \<Rightarrow> run_loop running [] c')
      else Some (Inr c))"
  by pat_completeness auto
termination
  by (relation "measures [\<lambda>(running, arrivals, c). length arrivals,
                          \<lambda>(running, arrivals, c). length (queue c)]")
     (auto simp: iteration_def read_string_def error_def
           split: option.splits list.splits sum.splits prod.splits if_splits)

declare run_loop.simps [simp del]

text \<open>
  \<^verbatim>\<open>run\<close>: the loop, then \<^verbatim>\<open>convert\<close> and \<^verbatim>\<open>flush\<close> when at least one record was
  completed. The result is the final state, with the messages of \<^verbatim>\<open>convert\<close> and
  \<^verbatim>\<open>flush\<close> on its error stream, and the strings written to the output file.
\<close>

definition serialize :: "Converter \<Rightarrow> (py_error + Converter \<times> string list option) option" where
  "serialize c =
     (if length (objects c) > 0 then
        (case convert (objects c) of
           None \<Rightarrow> None
         | Some (Inl e) \<Rightarrow> Some (Inl e)
         | Some (Inr (lines, messages)) \<Rightarrow>
             (case flush (string_counter c) lines of
                None \<Rightarrow> None
              | Some (written, messages') \<Rightarrow>
                  Some (Inr (c\<lparr>error_stream := error_stream c @ messages @ messages'\<rparr>,
                             written))))
      else Some (Inr (c, None)))"

definition run ::
  "bool \<Rightarrow> string list list \<Rightarrow> Converter
     \<Rightarrow> (py_error + Converter \<times> string list option) option" where
  "run running arrivals c =
     (case run_loop running arrivals c of
        None \<Rightarrow> None
      | Some (Inl e) \<Rightarrow> Some (Inl e)
      | Some (Inr c') \<Rightarrow> serialize c')"

section \<open>Notions used in the statements about the loop of \<^verbatim>\<open>run\<close>\<close>

text \<open>
  \<open>closing_follows\<close>: when a leaf is on top and two strings are on the queue, either the
  first is the leaf's closing tag, or the second is and the leaf does not carry the tag
  of the top node. \<open>passes c c'\<close>: the loop body takes \<open>c\<close> to \<open>c'\<close> in some number of
  passes, each made with a string on the queue, in a state where \<open>closing_follows\<close> holds,
  and without an exception.
\<close>

definition closing_follows :: "Converter \<Rightarrow> bool" where
  "closing_follows c =
     (case stack_top (stack c) of
        None \<Rightarrow> True
      | Some t \<Rightarrow>
          has_child t \<or>
          (case queue c of
             s # closing_tag # rest \<Rightarrow>
               matching_tag (node_value t) = Inr s \<or>
               (matching_tag (node_value t) = Inr closing_tag
                \<and> node_value t \<noteq> node_value (conv_structure c))
           | _ \<Rightarrow> True))"

inductive passes :: "Converter \<Rightarrow> Converter \<Rightarrow> bool" where
  no_pass: "passes c c"
| one_pass: "queue c \<noteq> [] \<Longrightarrow> closing_follows c \<Longrightarrow> iteration c = Inr c'
             \<Longrightarrow> passes c' c'' \<Longrightarrow> passes c c''"

section \<open>Notions used in the statements about the output\<close>

text \<open>
  The lines that close a block of the output: the final \<^verbatim>\<open>}\<close> and the end of an object
  block, with its separator or with the separator removed by \<^verbatim>\<open>flush\<close>. A line has a
  trailing comma when its last character other than a newline, a tab or a space is a
  comma. \<open>no_comma_before_close\<close> says of a sequence of written strings that none with a
  trailing comma is followed by a closing line.
\<close>

definition closing_line :: "string \<Rightarrow> bool" where
  "closing_line l = (l = ''}'' \<or> l = [TAB] @ '' },'' @ [NL] \<or> l = [TAB] @ '' }'' @ [NL])"

definition trailing_comma :: "string \<Rightarrow> bool" where
  "trailing_comma l =
     (case dropWhile (\<lambda>c. c = NL \<or> c = TAB \<or> c = CHR '' '') (rev l) of
        [] \<Rightarrow> False
      | c # _ \<Rightarrow> c = CHR '','')"

fun no_comma_before_close :: "string list \<Rightarrow> bool" where
  "no_comma_before_close [] = True"
| "no_comma_before_close [x] = True"
| "no_comma_before_close (x # y # r) =
     ((closing_line y \<longrightarrow> \<not> trailing_comma x) \<and> no_comma_before_close (y # r))"

text \<open>
  What \<^verbatim>\<open>flush\<close> does to \<^verbatim>\<open>string1\<close> before a line of \<^verbatim>\<open>no_trailing_comma\<close>, and the
  conditions on consecutive lines of the queue, and on the queue under construction,
  under which that removes every trailing separator.
\<close>

definition strip_commas :: "string \<Rightarrow> string" where
  "strip_commas l = replace_char l CHR '','' (int (length l) - 2)"

fun ok_lines :: "string list \<Rightarrow> bool" where
  "ok_lines [] = True"
| "ok_lines [x] = True"
| "ok_lines (x # y # r) =
     ((if y \<in> set no_trailing_comma then \<not> trailing_comma (strip_commas x)
       else \<not> closing_line y \<and> \<not> closing_line (strip_commas y))
      \<and> ok_lines (y # r))"

definition lines_inv :: "bool \<Rightarrow> string list \<Rightarrow> bool" where
  "lines_inv correct ls =
     ((\<exists>r. ls = json_open # r) \<and> ok_lines ls \<and>
      (if correct then (\<exists>n t v. last ls = field_line n t v)
       else (ls = [json_open] \<or> last ls = object_close)))"

text \<open>The two messages the statements below name.\<close>

definition nothing_to_write :: string where
  "nothing_to_write =
     obj_error_message (- 1) ''Final object: JSON body is empty, nothing to write''"

definition duplicate_message :: "nat \<Rightarrow> string \<Rightarrow> string" where
  "duplicate_message object_number name =
     obj_error_message (int object_number)
       (''Duplicate object name: '' @ [QUOTE] @ name @ [QUOTE])"

section \<open>The recovery search in the words of the specification\<close>

text \<open>
  After the specification, not the code: an ancestor is a resynchronization point for a
  tag when its children contain the tag, or when it is the root and the tag is the root's
  tag. The recovery pops the top, then pops up to the first ancestor that is such a point
  and pushes the matching child there, if there is one; with no such ancestor the stack
  ends empty.
\<close>

definition resync_point :: "XMLStructureNode \<Rightarrow> string \<Rightarrow> XMLStructureNode \<Rightarrow> bool" where
  "resync_point root s a = (find_child a s \<noteq> None \<or> (a = root \<and> s = node_value root))"

definition resynchronized ::
  "XMLStructureNode \<Rightarrow> string \<Rightarrow> XMLStructureStack \<Rightarrow> XMLStructureStack" where
  "resynchronized root s st =
     (case dropWhile (\<lambda>a. \<not> resync_point root s a) (pop st) of
        [] \<Rightarrow> []
      | a # rest \<Rightarrow>
          (case find_child a s of
             Some child \<Rightarrow> child # a # rest
           | None \<Rightarrow> a # rest))"

section \<open>Well-formed input\<close>

text \<open>
  An input that conforms to the bundled schema, as the list of its top-level instances: the
  name of the instance and its field groups, each a name, a type and a value. Its strings
  in the parser's queue: every tag opened and closed in schema order, every leaf with its
  value.
\<close>

type_synonym field_group = "string \<times> string \<times> string"
type_synonym object_instance = "string \<times> field_group list"

definition field_tokens :: "field_group \<Rightarrow> string list" where
  "field_tokens f =
     (case f of (n, t, v) \<Rightarrow>
        [''<field>'', ''<name>'', n, ''</name>'', ''<type>'', t, ''</type>'',
         ''<value>'', v, ''</value>'', ''</field>''])"

definition instance_tokens :: "object_instance \<Rightarrow> string list" where
  "instance_tokens i =
     (case i of (object_name, fs) \<Rightarrow>
        [''<object>'', ''<obj_name>'', object_name, ''</obj_name>'']
        @ concat (map field_tokens fs) @ [''</object>''])"

definition document_tokens :: "object_instance list \<Rightarrow> string list" where
  "document_tokens doc = concat (map instance_tokens doc)"

text \<open>
  A value the lexer puts on the queue (\<^verbatim>\<open>is_correct_value\<close>): not empty, none of the
  characters of \<^verbatim>\<open>illegal_characters\<close>, printable. A field group is well-formed when its
  name and value are such values and its type is one of the two the schema allows, the
  value of an \<^verbatim>\<open>int\<close> a string of digits; an instance when its name is such a value and
  it has at least one field group, all well-formed.
\<close>

definition illegal_characters :: "char list" where
  "illegal_characters = [CHR ''<'', CHR ''>'', QUOTE, CHR 0x27, CHR ''&'']"

definition legal_value :: "string \<Rightarrow> bool" where
  "legal_value v = (v \<noteq> [] \<and> (\<forall>c\<in>set v. c \<notin> set illegal_characters) \<and> isprintable v)"

definition well_formed_field :: "field_group \<Rightarrow> bool" where
  "well_formed_field f =
     (case f of (n, t, v) \<Rightarrow>
        legal_value n \<and> legal_value v \<and> (t = ''int'' \<and> isdigit v \<or> t = ''string''))"

definition well_formed_instance :: "object_instance \<Rightarrow> bool" where
  "well_formed_instance i =
     (case i of (object_name, fs) \<Rightarrow>
        legal_value object_name \<and> fs \<noteq> [] \<and> list_all well_formed_field fs)"

definition well_formed :: "object_instance list \<Rightarrow> bool" where
  "well_formed doc = list_all well_formed_instance doc"

text \<open>
  Two further conditions on the values: no name or value has the shape \<^verbatim>\<open>run\<close> takes
  for a closing tag before it looks at the stack (more than two characters, the second a
  slash), and the last field group of an instance has no comma in its name or value
  (\<^verbatim>\<open>flush\<close> removes every comma of the line before a closing line).
\<close>

definition closing_shaped :: "string \<Rightarrow> bool" where
  "closing_shaped s = (length s > 2 \<and> s ! 1 = CHR ''/'')"

definition no_closing_shaped_value :: "object_instance \<Rightarrow> bool" where
  "no_closing_shaped_value i =
     (case i of (object_name, fs) \<Rightarrow>
        \<not> closing_shaped object_name
        \<and> list_all (\<lambda>(n, t, v). \<not> closing_shaped n \<and> \<not> closing_shaped v) fs)"

definition last_group_comma_free :: "object_instance \<Rightarrow> bool" where
  "last_group_comma_free i =
     (case i of (object_name, fs) \<Rightarrow>
        fs \<noteq> [] \<longrightarrow> (case last fs of (n, t, v) \<Rightarrow> CHR '','' \<notin> set n \<and> CHR '','' \<notin> set v))"

text \<open>
  The output for a list of instances: an entry for each, under its name, a line
  \<^verbatim>\<open>"name": value\<close> for every field group, the value in double quotes exactly when the type
  is \<^verbatim>\<open>string\<close>, a separator after every line of a block but the last and after every
  block but the last.
\<close>

definition field_entry :: "field_group \<Rightarrow> string" where
  "field_entry f =
     (case f of (n, t, v) \<Rightarrow>
        [TAB, TAB, QUOTE] @ n @ [QUOTE] @ '': ''
        @ (if t = ''string'' then [QUOTE] @ v @ [QUOTE] else v))"

definition entry_lines :: "bool \<Rightarrow> object_instance \<Rightarrow> string list" where
  "entry_lines final i =
     (case i of (object_name, fs) \<Rightarrow>
        object_header object_name
        # map (\<lambda>f. field_entry f @ '','' @ [NL]) (butlast fs)
        @ [field_entry (last fs) @ [NL]]
        @ [if final then [TAB] @ '' }'' @ [NL] else [TAB] @ '' },'' @ [NL]])"

definition expected_output :: "object_instance list \<Rightarrow> string list" where
  "expected_output doc =
     json_open # concat (map (entry_lines False) (butlast doc))
     @ entry_lines True (last doc) @ [json_close]"

text \<open>
  The record the validator is shown below to build for an instance: the name slot, then
  one group of three slots for every field group.
\<close>

definition group_tags :: "string list" where
  "group_tags = [''<name>'', ''<type>'', ''<value>'']"

definition group_values :: "field_group \<Rightarrow> string option list" where
  "group_values f = (case f of (n, t, v) \<Rightarrow> [Some n, Some t, Some v])"

definition record_of :: "object_instance \<Rightarrow> XMLObject" where
  "record_of i =
     (case i of (object_name, fs) \<Rightarrow>
        \<lparr>xml_structure = object_tag,
         tags = ''<obj_name>'' # concat (map (\<lambda>f. group_tags) fs),
         obj_values = Some object_name # concat (map group_values fs)\<rparr>)"

text \<open>
  The lines \<^verbatim>\<open>convert\<close> puts on its queue for an instance, and what \<^verbatim>\<open>flush\<close> writes after
  the opening line for a list of instances.
\<close>

definition block_lines :: "object_instance \<Rightarrow> string list" where
  "block_lines i =
     (case i of (object_name, fs) \<Rightarrow>
        object_header object_name # map (\<lambda>(n, t, v). field_line n t v) fs @ [object_close])"

fun written_blocks :: "object_instance list \<Rightarrow> string list" where
  "written_blocks [] = [json_close]"
| "written_blocks [i] = entry_lines True i @ [json_close]"
| "written_blocks (i # j # r) = entry_lines False i @ written_blocks (j # r)"

section \<open>Sample inputs\<close>

text \<open>
  A record of the bundled schema with one complete field group, and an \<^verbatim>\<open>error\<close>
  callback that only joins its two arguments.
\<close>

definition filled_record :: XMLObject where
  "filled_record =
     \<lparr>xml_structure = object_tag,
      tags = [''<obj_name>'', ''<name>'', ''<type>'', ''<value>''],
      obj_values = [Some ''A'', Some ''count'', Some ''int'', Some ''5'']\<rparr>"

definition plain_error :: "string \<Rightarrow> string \<Rightarrow> string" where
  "plain_error message s = message @ '': '' @ s"

definition two_fields_record :: XMLObject where
  "two_fields_record =
     \<lparr>xml_structure = object_tag,
      tags = [''<obj_name>'', ''<name>'', ''<type>'', ''<value>'',
              ''<name>'', ''<type>'', ''<value>''],
      obj_values = [Some ''Alpha'', Some ''count'', Some ''int'', Some ''5'',
                    Some ''label'', Some ''string'', Some ''a,b'']\<rparr>"

definition bad_int_record :: XMLObject where
  "bad_int_record =
     \<lparr>xml_structure = object_tag,
      tags = [''<obj_name>'', ''<name>'', ''<type>'', ''<value>''],
      obj_values = [Some ''A'', Some ''count'', Some ''int'', Some ''five'']\<rparr>"

definition unnamed_groups_record :: XMLObject where
  "unnamed_groups_record =
     \<lparr>xml_structure = object_tag,
      tags = [''<obj_name>'', ''<name>'', ''<type>'', ''<value>'',
              ''<name>'', ''<type>'', ''<value>'', ''<name>'', ''<type>'', ''<value>''],
      obj_values = [None, Some ''count'', Some ''int'', Some ''five'',
                    Some ''size'', Some ''int'', Some ''six'',
                    Some ''depth'', Some ''int'', Some ''7'']\<rparr>"

definition superscript_record :: XMLObject where
  "superscript_record =
     \<lparr>xml_structure = object_tag,
      tags = [''<obj_name>'', ''<name>'', ''<type>'', ''<value>''],
      obj_values = [Some ''A'', Some ''count'', Some ''int'', Some [CHR ''5'', CHR 0xB2]]\<rparr>"

definition empty_state :: convert_state where
  "empty_state = \<lparr>json = [json_open], object_names = [], obj_errors = []\<rparr>"

definition after_first :: convert_state where
  "after_first =
     \<lparr>json = [json_open, object_header ''A'', field_line ''count'' ''int'' ''5'', object_close],
      object_names = [''A''], obj_errors = []\<rparr>"

definition after_second :: convert_state where
  "after_second =
     \<lparr>json = [json_open, object_header ''A'', field_line ''count'' ''int'' ''5'', object_close,
              object_header ''Alpha'', field_line ''count'' ''int'' ''5'',
              field_line ''label'' ''string'' ''a,b'', object_close],
      object_names = [''A'', ''Alpha''], obj_errors = []\<rparr>"

definition unnamed_record :: XMLObject where
  "unnamed_record =
     \<lparr>xml_structure = object_tag,
      tags = [''<obj_name>'', ''<name>'', ''<type>'', ''<value>''],
      obj_values = [None, Some ''count'', Some ''int'', Some ''5'']\<rparr>"

definition finished_converter :: "XMLObject list \<Rightarrow> Converter" where
  "finished_converter objs = (new_Converter [] object_tag)\<lparr>objects := objs\<rparr>"

text \<open>
  Two converter states inside a record of the bundled schema: in a field group with
  \<^verbatim>\<open><obj_name>\<close> next in the queue, and directly under the root with the closing tag
  \<^verbatim>\<open></field>\<close> next.
\<close>

definition in_object :: Converter where
  "in_object =
     \<lparr>stack = [field_tag, object_tag], error_stream = [], queue = [''<obj_name>'', ''B''],
      string_counter = 9, conv_structure = object_tag,
      current_object = filled_record, objects = []\<rparr>"

definition at_object :: Converter where
  "at_object =
     \<lparr>stack = [object_tag], error_stream = [], queue = [''</field>''],
      string_counter = 9, conv_structure = object_tag,
      current_object = filled_record, objects = []\<rparr>"

text \<open>Two inputs: two instances with different names, and two with the same name.\<close>

definition sample_doc :: "object_instance list" where
  "sample_doc = [(''Alpha'', [(''count'', ''int'', ''5''), (''label'', ''string'', ''x y'')]),
                 (''Beta'', [(''size'', ''int'', ''12'')])]"

text \<open>
  The strings of \<open>sample_doc\<close> as a slower lexer delivers them: two are on the queue when
  the loop starts, the name \<^verbatim>\<open>Alpha\<close> arrives alone, ahead of its closing tag, and two
  passes find nothing new.
\<close>

definition sample_queue :: "string list" where
  "sample_queue = [''<object>'', ''<obj_name>'']"

definition sample_arrivals :: "string list list" where
  "sample_arrivals =
     [[], [''Alpha''], [''</obj_name>'', ''<field>'', ''<name>'', ''count''], [],
      drop 7 (document_tokens sample_doc)]"

definition duplicate_doc :: "object_instance list" where
  "duplicate_doc = [(''A'', [(''count'', ''int'', ''5'')]), (''A'', [(''size'', ''int'', ''7'')])]"

section \<open>Properties of \<^verbatim>\<open>matching_tag\<close>\<close>

lemma matching_tag_open:
  assumes "2 \<le> length t" and "hd t = CHR ''<''" and "t ! 1 \<noteq> CHR ''/''"
  shows "matching_tag_twice t = Inr t"
proof -
  obtain a b r where t: "t = a # b # r"
    using assms(1) by (cases t; cases "tl t") auto
  with assms show ?thesis
    by (simp add: matching_tag_twice_def matching_tag_def)
qed

lemma matching_tag_close:
  assumes "3 \<le> length t" and "hd t = CHR ''<''" and "t ! 1 = CHR ''/''"
    and "t ! 2 \<noteq> CHR ''/''"
  shows "matching_tag_twice t = Inr t"
proof -
  obtain a b c r where t: "t = a # b # c # r"
    using assms(1) by (cases t; cases "tl t"; cases "tl (tl t)") auto
  with assms show ?thesis
    by (simp add: matching_tag_twice_def matching_tag_def)
qed

text \<open>
  C10, as stated: for every string of length at least two that begins with \<^verbatim>\<open><\<close> and ends
  with \<^verbatim>\<open>>\<close>, the matching tag of its matching tag is the string itself. The string
  \<^verbatim>\<open><//>\<close> refutes it: its matching tag is \<^verbatim>\<open></>\<close>, whose matching tag is \<^verbatim>\<open><>\<close>.
\<close>

theorem matching_tag_involution_counterexample:
  "2 \<le> length ''<//>'' \<and> hd ''<//>'' = CHR ''<'' \<and> last ''<//>'' = CHR ''>''
   \<and> matching_tag_twice ''<//>'' = Inr ''<>'' \<and> matching_tag_twice ''<//>'' \<noteq> Inr ''<//>''"
  by (simp add: matching_tag_twice_def matching_tag_def)

text \<open>
  C10, amended: for every string of length at least two that begins with \<^verbatim>\<open><\<close>, ends with
  \<^verbatim>\<open>>\<close> and does not begin with \<^verbatim>\<open><//\<close>, the matching tag of its matching tag is the
  string itself, and neither call raises.
\<close>

theorem matching_tag_involution:
  assumes "2 \<le> length t" and "hd t = CHR ''<''" and "last t = CHR ''>''"
    and "\<not> (t ! 1 = CHR ''/'' \<and> t ! 2 = CHR ''/'')"
  shows "matching_tag_twice t = Inr t"
proof (cases "t ! 1 = CHR ''/''")
  case False
  with assms show ?thesis by (simp add: matching_tag_open)
next
  case True
  have "length t \<noteq> 2"
  proof
    assume l: "length t = 2"
    then obtain a b where "t = [a, b]"
      by (cases t; cases "tl t") auto
    with True assms(3) show False by simp
  qed
  with assms(1) have "3 \<le> length t" by simp
  with True assms show ?thesis by (simp add: matching_tag_close)
qed

theorem matching_tag_involution_witness:
  "2 \<le> length ''</field>'' \<and> hd ''</field>'' = CHR ''<'' \<and> last ''</field>'' = CHR ''>''
   \<and> \<not> (''</field>'' ! 1 = CHR ''/'' \<and> ''</field>'' ! 2 = CHR ''/'')
   \<and> matching_tag_twice ''</field>'' = Inr ''</field>''"
  using matching_tag_involution [of "''</field>''"] by simp

section \<open>Properties of records\<close>

lemma fold_build:
  assumes "\<And>c obj. c \<in> set cs \<Longrightarrow>
            build c obj = obj\<lparr>tags := tags obj @ leaf_tags c,
                               obj_values := obj_values obj @ replicate (length (leaf_tags c)) None\<rparr>"
  shows "fold build cs obj =
           obj\<lparr>tags := tags obj @ concat (map leaf_tags cs),
               obj_values := obj_values obj @ replicate (length (concat (map leaf_tags cs))) None\<rparr>"
  using assms
proof (induction cs arbitrary: obj)
  case Nil
  then show ?case by simp
next
  case (Cons c cs)
  then show ?case by (simp add: replicate_add)
qed

lemma build_appends:
  "build n obj = obj\<lparr>tags := tags obj @ leaf_tags n,
                      obj_values := obj_values obj @ replicate (length (leaf_tags n)) None\<rparr>"
proof (induction n obj rule: build.induct)
  case (1 v r a cs obj)
  show ?case
  proof (cases "length cs > 0")
    case True
    have "fold build cs obj =
           obj\<lparr>tags := tags obj @ concat (map leaf_tags cs),
               obj_values := obj_values obj @ replicate (length (concat (map leaf_tags cs))) None\<rparr>"
      by (rule fold_build) (use 1 True in auto)
    with True show ?thesis by simp
  next
    case False
    then show ?thesis by simp
  qed
qed

lemma index_of_Some: "index_of xs v = Some i \<Longrightarrow> i < length xs \<and> xs ! i = v"
  by (induction xs arbitrary: i) (auto split: if_splits)

lemma index_of_mem: "v \<in> set xs \<Longrightarrow> \<exists>i. index_of xs v = Some i"
  by (induction xs) auto

lemma index_of_None: "index_of xs v = None \<longleftrightarrow> v \<notin> set xs"
  by (induction xs) auto

lemma index_of_append: "v \<in> set xs \<Longrightarrow> index_of (xs @ ys) v = index_of xs v"
  by (induction xs) auto

lemma last_index_Some: "last_index xs v = Some j \<Longrightarrow> j < length xs \<and> xs ! j = v"
  by (auto simp: last_index_def rev_nth dest!: index_of_Some)

lemma last_index_append:
  assumes "v \<in> set ys"
  shows "\<exists>j. last_index (xs @ ys) v = Some j \<and> length xs \<le> j \<and> j < length (xs @ ys)
              \<and> (xs @ ys) ! j = v"
proof -
  from assms obtain i where i: "index_of (rev ys) v = Some i"
    using index_of_mem [of v "rev ys"] by auto
  then have il: "i < length ys" using index_of_Some by fastforce
  have "index_of (rev (xs @ ys)) v = Some i"
    using i assms by (simp add: index_of_append)
  then have l: "last_index (xs @ ys) v = Some (length (xs @ ys) - i - 1)"
    by (simp add: last_index_def)
  moreover have "length xs \<le> length (xs @ ys) - i - 1" using il by simp
  ultimately show ?thesis using last_index_Some [OF l] by blast
qed

lemma first_found_Some:
  "first_found rs = Some r \<Longrightarrow> Some r \<in> set rs"
  by (induction rs rule: first_found.induct) auto

lemma tag_to_node_child:
  "tag_to_node par s t = Some (n, pp) \<Longrightarrow>
     node_value n = t \<and> ((pp = par \<and> n = s) \<or> (\<exists>p. pp = Some p \<and> n \<in> set (children p)))"
proof (induction par s t arbitrary: n pp rule: tag_to_node.induct)
  case (1 parent v r a cs t)
  show ?case
  proof (cases "v = t")
    case True
    with 1(2) show ?thesis by auto
  next
    case False
    with 1(2) have "Some (n, pp) \<in> set (map (\<lambda>child. tag_to_node (Some (Node v r a cs)) child t) cs)"
      by (auto dest: first_found_Some)
    then obtain c where c: "c \<in> set cs" "tag_to_node (Some (Node v r a cs)) c t = Some (n, pp)"
      by auto
    from 1(1) [OF False c] show ?thesis using c(1) by auto
  qed
qed

lemma leaf_in_parent:
  assumes "n \<in> set (children p)" and "children n = []"
  shows "node_value n \<in> set (leaf_tags p)"
proof -
  obtain v r a cs where p: "p = Node v r a cs" by (cases p)
  obtain v' r' a' where n: "n = Node v' r' a' []" using assms(2) by (cases n) auto
  from assms(1) p n show ?thesis by (auto intro!: bexI [of _ "Node v' r' a' []"])
qed

lemma build_lengths:
  "length (tags obj) = length (obj_values obj) \<Longrightarrow>
   length (tags (build n obj)) = length (obj_values (build n obj))"
  by (simp add: build_appends)

lemma assign_value_lengths:
  "length (tags obj) = length (obj_values obj) \<Longrightarrow>
   length (tags (fst (snd (assign_value obj node i tag v err)))) =
   length (obj_values (fst (snd (assign_value obj node i tag v err))))"
  by (simp add: assign_value_def store_value_def split: option.splits)

text \<open>
  C9: for every record, the slot-tag list and the value list have the same length after
  construction, and a call of \<^verbatim>\<open>set_value\<close> on a record where they have the same length
  leaves a record where they have the same length, whatever the call does (store, clone a
  repeatable group, report an error, raise).
\<close>

theorem record_lengths_equal:
  "length (tags (new_XMLObject s)) = length (obj_values (new_XMLObject s)) \<and>
   (length (tags obj) = length (obj_values obj) \<longrightarrow>
    length (tags (fst (snd (set_value obj tag v err)))) =
    length (obj_values (fst (snd (set_value obj tag v err)))))"
proof (intro conjI impI)
  show "length (tags (new_XMLObject s)) = length (obj_values (new_XMLObject s))"
    by (simp add: new_XMLObject_def build_lengths)
next
  assume inv: "length (tags obj) = length (obj_values obj)"
  show "length (tags (fst (snd (set_value obj tag v err)))) =
        length (obj_values (fst (snd (set_value obj tag v err))))"
    unfolding set_value_def
    by (simp add: inv assign_value_lengths build_lengths
             split: option.splits prod.splits)
qed

theorem record_lengths_equal_witness:
  "length (tags filled_record) = length (obj_values filled_record) \<and>
   length (tags (fst (snd (set_value filled_record ''<name>'' ''size'' plain_error)))) =
   length (obj_values (fst (snd (set_value filled_record ''<name>'' ''size'' plain_error))))"
  using record_lengths_equal [of object_tag filled_record "''<name>''" "''size''" plain_error]
  by (simp add: filled_record_def)

text \<open>
  C3, as stated: a second \<^verbatim>\<open>set_value\<close> for a leaf tag under a repeatable parent, with the
  last slot of the tag filled, appends a fresh group and stores the new value there. On the
  bundled schema \<^verbatim>\<open><type>\<close> is such a leaf; with the value \<^verbatim>\<open>float\<close>, which it does not
  allow, the group is appended, the call returns \<^verbatim>\<open>False\<close> with a message, and the value
  is stored nowhere.
\<close>

theorem set_value_clones_group_counterexample:
  "last_index (tags filled_record) ''<type>'' = Some 2
   \<and> obj_values filled_record ! 2 \<noteq> None
   \<and> tag_to_node None (xml_structure filled_record) ''<type>''
       = Some (Node ''<type>'' False (Some [''int'', ''string'']) [], Some field_tag)
   \<and> repeatable field_tag
   \<and> set_value filled_record ''<type>'' ''float'' plain_error =
       (Inr False,
        filled_record\<lparr>tags := tags filled_record @ [''<name>'', ''<type>'', ''<value>''],
                      obj_values := obj_values filled_record @ [None, None, None]\<rparr>,
        [''Value \"float\" is not allowed in this tag: <type>''])"
  by (simp add: filled_record_def object_tag_def field_tag_def last_index_def set_value_def
        assign_value_def plain_error_def)

text \<open>
  C3, amended: for every record whose two lists have the same length and every leaf tag
  whose schema parent is repeatable, a call of \<^verbatim>\<open>set_value\<close> with the last slot of the tag
  filled appends one unset slot for every leaf below the parent and leaves every older slot
  as it was. With a value the leaf allows it stores the value in the appended slot of the
  tag, returns \<^verbatim>\<open>True\<close> and reports nothing; with a value the leaf does not allow it
  stores the value nowhere, returns \<^verbatim>\<open>False\<close> and reports one message
  \<^verbatim>\<open>Value "v" is not allowed in this tag\<close>.
\<close>

theorem set_value_clones_group:
  assumes inv: "length (tags obj) = length (obj_values obj)"
    and last: "last_index (tags obj) tag = Some i"
    and filled: "obj_values obj ! i \<noteq> None"
    and node: "tag_to_node None (xml_structure obj) tag = Some (n, Some p)"
    and leaf: "children n = []"
    and rep: "repeatable p"
  shows "\<exists>j. length (tags obj) \<le> j \<and> j < length (tags obj) + length (leaf_tags p)
              \<and> (tags obj @ leaf_tags p) ! j = tag
              \<and> set_value obj tag v err =
                  (if (\<forall>al. allowed_values n = Some al \<longrightarrow> v \<in> set al) then
                     (Inr True,
                      obj\<lparr>tags := tags obj @ leaf_tags p,
                          obj_values :=
                            (obj_values obj @ replicate (length (leaf_tags p)) None)
                              [j := Some v]\<rparr>,
                      [])
                   else
                     (Inr False,
                      obj\<lparr>tags := tags obj @ leaf_tags p,
                          obj_values := obj_values obj @ replicate (length (leaf_tags p)) None\<rparr>,
                      [err (''Value '' @ [QUOTE] @ v @ [QUOTE] @ '' is not allowed in this tag'')
                           tag]))"
proof -
  from tag_to_node_child [OF node] have nv: "node_value n = tag" and np: "n \<in> set (children p)"
    by auto
  from leaf_in_parent [OF np leaf] nv have mem: "tag \<in> set (leaf_tags p)" by simp
  from last_index_append [OF mem, of "tags obj"]
  obtain j where j: "last_index (tags obj @ leaf_tags p) tag = Some j"
    "length (tags obj) \<le> j" "j < length (tags obj @ leaf_tags p)"
    "(tags obj @ leaf_tags p) ! j = tag"
    by blast
  from last_index_Some [OF last] inv have il: "i < length (obj_values obj)" by simp
  have "set_value obj tag v err =
          (if (\<forall>al. allowed_values n = Some al \<longrightarrow> v \<in> set al) then
             (Inr True,
              obj\<lparr>tags := tags obj @ leaf_tags p,
                  obj_values :=
                    (obj_values obj @ replicate (length (leaf_tags p)) None)[j := Some v]\<rparr>,
              [])
           else
             (Inr False,
              obj\<lparr>tags := tags obj @ leaf_tags p,
                  obj_values := obj_values obj @ replicate (length (leaf_tags p)) None\<rparr>,
              [err (''Value '' @ [QUOTE] @ v @ [QUOTE] @ '' is not allowed in this tag'') tag]))"
    using last il filled node rep j inv
    by (cases "allowed_values n")
       (simp_all add: set_value_def build_appends assign_value_def store_value_def)
  with j show ?thesis by auto
qed

theorem set_value_clones_group_witness:
  "length (tags filled_record) = length (obj_values filled_record)
   \<and> last_index (tags filled_record) ''<name>'' = Some 1
   \<and> obj_values filled_record ! 1 \<noteq> None
   \<and> tag_to_node None (xml_structure filled_record) ''<name>''
         = Some (Node ''<name>'' False None [], Some field_tag)
   \<and> last_index (tags filled_record) ''<type>'' = Some 2
   \<and> obj_values filled_record ! 2 \<noteq> None
   \<and> tag_to_node None (xml_structure filled_record) ''<type>''
         = Some (Node ''<type>'' False (Some [''int'', ''string'']) [], Some field_tag)
   \<and> repeatable field_tag
   \<and> (\<exists>j. length (tags filled_record) \<le> j
          \<and> j < length (tags filled_record) + length (leaf_tags field_tag)
          \<and> (tags filled_record @ leaf_tags field_tag) ! j = ''<name>''
          \<and> set_value filled_record ''<name>'' ''size'' plain_error =
               (Inr True,
                filled_record\<lparr>tags := tags filled_record @ leaf_tags field_tag,
                              obj_values :=
                                (obj_values filled_record
                                   @ replicate (length (leaf_tags field_tag)) None)
                                  [j := Some ''size'']\<rparr>,
                []))
   \<and> (\<exists>j. length (tags filled_record) \<le> j
          \<and> j < length (tags filled_record) + length (leaf_tags field_tag)
          \<and> (tags filled_record @ leaf_tags field_tag) ! j = ''<type>''
          \<and> set_value filled_record ''<type>'' ''float'' plain_error =
               (Inr False,
                filled_record\<lparr>tags := tags filled_record @ leaf_tags field_tag,
                              obj_values :=
                                obj_values filled_record
                                  @ replicate (length (leaf_tags field_tag)) None\<rparr>,
                [plain_error
                   (''Value '' @ [QUOTE] @ ''float'' @ [QUOTE] @ '' is not allowed in this tag'')
                   ''<type>'']))"
proof -
  have h: "length (tags filled_record) = length (obj_values filled_record)"
    "last_index (tags filled_record) ''<name>'' = Some 1"
    "obj_values filled_record ! 1 \<noteq> None"
    "tag_to_node None (xml_structure filled_record) ''<name>''
           = Some (Node ''<name>'' False None [], Some field_tag)"
    "children (Node ''<name>'' False None []) = []"
    "repeatable field_tag"
    by (simp_all add: filled_record_def object_tag_def field_tag_def last_index_def)
  have g: "last_index (tags filled_record) ''<type>'' = Some 2"
    "obj_values filled_record ! 2 \<noteq> None"
    "tag_to_node None (xml_structure filled_record) ''<type>''
           = Some (Node ''<type>'' False (Some [''int'', ''string'']) [], Some field_tag)"
    "children (Node ''<type>'' False (Some [''int'', ''string'']) []) = []"
    by (simp_all add: filled_record_def object_tag_def field_tag_def last_index_def)
  have a: "(\<forall>al. allowed_values (Node ''<name>'' False None []) = Some al \<longrightarrow> ''size'' \<in> set al)
             = True"
    "(\<forall>al. allowed_values (Node ''<type>'' False (Some [''int'', ''string'']) []) = Some al
            \<longrightarrow> ''float'' \<in> set al) = False"
    by simp_all
  note r1 = set_value_clones_group [OF h, of "''size''" plain_error, unfolded a if_True]
  note r2 = set_value_clones_group [OF h(1) g(1,2,3,4) h(6), of "''float''" plain_error,
              unfolded a if_False]
  show ?thesis
    by (intro conjI h(1,2,3,4,6) g(1,2,3) r1 r2)
qed

section \<open>Properties of the lexer's diagnostics\<close>

lemma str_nat_digit: "n < 10 \<Longrightarrow> str_nat n = [''0123456789'' ! n]"
  by (simp add: str_nat.simps)

text \<open>
  C8: the offset reported for a token \<open>t\<close> after \<open>n\<close> characters should be \<open>n\<close> minus the
  length of \<open>t\<close>. \<^verbatim>\<open>Parser.error\<close> guards the subtraction with the length of the
  message, not of the token: after 10 characters, the last three of them the unknown tag
  \<^verbatim>\<open><x>\<close>, the message \<^verbatim>\<open>Found incorrect tag\<close> has 19 characters, more than 10, and the
  reported offset is 0, not 7.
\<close>

theorem parser_error_offset_at_short_input:
  "error_number 10 ''Found incorrect tag'' ''<x>'' = 0
   \<and> int 10 - int (length ''<x>'') = 7
   \<and> parser_error 10 ''Found incorrect tag'' ''<x>''
       = ''Char 0: Found incorrect tag: '' @ [QUOTE] @ ''<x>'' @ [QUOTE, NL]"
  by (simp add: error_number_def parser_error_def isprintable_def printable_char_def
        str_int_def str_nat_digit)

section \<open>Properties of the serializer\<close>

lemma fields_step_Finished:
  "fields_step obj k n index correct st = Finished c s \<Longrightarrow> c = correct \<and> s = st"
  by (auto simp: fields_step_def split: if_splits sum.splits prod.splits)

lemma fields_loop_invariant:
  assumes run: "fields_loop obj k n index correct st = Some (Inr (c', st'))"
    and init: "I correct st"
    and step: "\<And>index correct st i c s.
                 I correct st \<Longrightarrow> fields_step obj k n index correct st = Continue i c s \<Longrightarrow> I c s"
  shows "I c' st'"
proof -
  have "(\<forall>index correct st i c s.
           I correct st \<longrightarrow> fields_step obj k n index correct st = Continue i c s \<longrightarrow> I c s)
        \<longrightarrow> I correct st \<longrightarrow> (\<forall>c' st'. r = Inr (c', st') \<longrightarrow> I c' st')"
    if "fields_loop obj k n index correct st = Some r" for r
    using that
  proof (induction obj k n index correct st r rule: fields_loop.raw_induct [rotated 1, consumes 1])
    case (1 loop obj k n index correct st r)
    show ?case
    proof (cases "fields_step obj k n index correct st")
      case (Raised e)
      with 1(2) show ?thesis by auto
    next
      case (Finished c s)
      with 1(2) fields_step_Finished [OF Finished] show ?thesis by auto
    next
      case (Continue i c s)
      with 1(2) have r: "loop obj k n i c s = Some r" by simp
      show ?thesis using 1(1)[OF r] Continue by blast
    qed
  qed
  with run init step show ?thesis by blast
qed

lemma remove_first_all:
  "count_list s c \<le> n \<Longrightarrow> remove_first n c s = filter (\<lambda>x. x \<noteq> c) s"
proof (induction n c s rule: remove_first.induct)
  case (1 c s)
  then have "c \<notin> set s" by (simp add: count_list_0_iff)
  then have "filter (\<lambda>x. x \<noteq> c) s = s" by (auto simp: filter_id_conv)
  then show ?case by simp
qed auto

lemma replace_char_Cons: "x \<noteq> c \<Longrightarrow> replace_char (x # s) c k = x # replace_char s c k"
  by (cases "nat k") (auto simp: replace_char_def)

lemma no_comma_no_trailing: "CHR '','' \<notin> set l \<Longrightarrow> \<not> trailing_comma l"
proof -
  assume a: "CHR '','' \<notin> set l"
  have "set (dropWhile (\<lambda>c. c = NL \<or> c = TAB \<or> c = CHR '' '') (rev l)) \<subseteq> set l"
    using set_dropWhileD by fastforce
  with a show ?thesis
    by (auto simp: trailing_comma_def split: list.splits)
qed

lemma strip_all:
  assumes "int (count_list l CHR '','') \<le> int (length l) - 2"
  shows "strip_commas l = filter (\<lambda>x. x \<noteq> CHR '','') l"
proof -
  from assms have "count_list l CHR '','' \<le> nat (int (length l) - 2)" by linarith
  moreover from assms have "\<not> int (length l) - 2 < 0" by linarith
  ultimately show ?thesis
    by (simp add: strip_commas_def replace_char_def remove_first_all)
qed

lemma count_list_le_length: "count_list xs x \<le> length xs"
  by (induction xs) auto

lemma strip_field_line: "\<not> trailing_comma (strip_commas (field_line n t v))"
proof -
  have "int (count_list (field_line n t v) CHR '','') \<le> int (length (field_line n t v)) - 2"
    using count_list_le_length [of n "CHR '',''"] count_list_le_length [of v "CHR '',''"]
    by (simp add: field_line_def)
  then have "CHR '','' \<notin> set (strip_commas (field_line n t v))"
    by (simp add: strip_all)
  then show ?thesis by (rule no_comma_no_trailing)
qed

lemma strip_object_close: "strip_commas object_close = [TAB] @ '' }'' @ [NL]"
  by (simp add: strip_commas_def object_close_def replace_char_def numeral_3_eq_3)

lemma strip_object_close_clean: "\<not> trailing_comma (strip_commas object_close)"
  by (simp add: strip_object_close trailing_comma_def)

lemma field_line_plain:
  "field_line n t v \<notin> set no_trailing_comma" "\<not> closing_line (field_line n t v)"
  "\<not> closing_line (strip_commas (field_line n t v))"
  by (simp_all add: field_line_def no_trailing_comma_def closing_line_def strip_commas_def
        replace_char_Cons)

lemma object_header_plain:
  "object_header n \<notin> set no_trailing_comma" "\<not> closing_line (object_header n)"
  "\<not> closing_line (strip_commas (object_header n))"
  by (simp_all add: object_header_def no_trailing_comma_def closing_line_def strip_commas_def
        replace_char_Cons)

lemma closers: "object_close \<in> set no_trailing_comma" "json_close \<in> set no_trailing_comma"
  by (simp_all add: object_close_def json_close_def no_trailing_comma_def)

lemma ok_lines_append:
  "ok_lines (ls @ [y]) =
     (ok_lines ls \<and>
      (ls = [] \<or> (if y \<in> set no_trailing_comma then \<not> trailing_comma (strip_commas (last ls))
                  else \<not> closing_line y \<and> \<not> closing_line (strip_commas y))))"
  by (induction ls rule: ok_lines.induct) auto

lemma flush_loop_nonempty: "flush_loop y r \<noteq> []"
  by (cases r) auto

lemma hd_flush_loop: "hd (flush_loop y r) = y \<or> hd (flush_loop y r) = strip_commas y"
  by (cases r) (auto simp: strip_commas_def)

lemma ok_lines_tail: "ok_lines (x # q) \<Longrightarrow> ok_lines q"
  by (cases q) auto

lemma flush_loop_ok:
  "ok_lines (x # q) \<Longrightarrow> no_comma_before_close (flush_loop x q)"
proof (induction q arbitrary: x)
  case Nil
  then show ?case by simp
next
  case (Cons y r)
  obtain h t where ht: "flush_loop y r = h # t"
    using flush_loop_nonempty [of y r] by (cases "flush_loop y r") auto
  from Cons.prems have ok: "ok_lines (y # r)" by simp
  have tail: "no_comma_before_close (h # t)"
    using Cons.IH [OF ok] ht by simp
  have "\<not> trailing_comma (if y \<in> set no_trailing_comma then strip_commas x else x)"
    if "closing_line h"
  proof -
    from hd_flush_loop [of y r] ht have "h = y \<or> h = strip_commas y" by simp
    with that Cons.prems have "y \<in> set no_trailing_comma" by (auto split: if_splits)
    with Cons.prems show ?thesis by simp
  qed
  with tail ht show ?case by (auto simp: strip_commas_def split: if_splits)
qed

lemma lines_inv_field:
  assumes "lines_inv correct ls"
  shows "lines_inv True
           ((if \<not> correct then ls @ [object_header name] else ls) @ [field_line n t v])"
proof -
  from assms obtain r where r: "ls = json_open # r" by (auto simp: lines_inv_def)
  from assms have ok: "ok_lines ls" by (simp add: lines_inv_def)
  have "ok_lines (ls @ [object_header name])"
    using ok by (simp add: ok_lines_append object_header_plain)
  then have "ok_lines ((ls @ [object_header name]) @ [field_line n t v])"
    by (subst ok_lines_append) (simp add: field_line_plain)
  moreover have "ok_lines (ls @ [field_line n t v])"
    using ok by (simp add: ok_lines_append field_line_plain)
  ultimately show ?thesis
    using r by (auto simp: lines_inv_def)
qed

lemma fields_step_lines_inv:
  assumes "lines_inv correct (json st)"
    and "fields_step obj k name index correct st = Continue i c s"
  shows "lines_inv c (json s)"
  using assms lines_inv_field [OF assms(1)]
  by (auto simp: fields_step_def put_error_def put_line_def begin_object_def
           split: if_splits sum.splits prod.splits)

lemma convert_object_lines_inv:
  assumes "lines_inv False (json st)"
    and "convert_object obj k st = Some (Inr st')"
  shows "lines_inv False (json st')"
proof -
  have closed: "lines_inv False (json s @ [object_close])" if "lines_inv True (json s)" for s
  proof -
    from that have "ok_lines (json s @ [object_close])"
      by (auto simp: lines_inv_def ok_lines_append closers strip_field_line)
    with that show ?thesis by (auto simp: lines_inv_def)
  qed
  have loop: "lines_inv c (json s)"
    if "fields_loop obj k name i False st = Some (Inr (c, s))" for name i c s
    using that assms(1)
    by (rule fields_loop_invariant [where I = "\<lambda>c s. lines_inv c (json s)"])
       (rule fields_step_lines_inv)
  from assms show ?thesis
    by (auto simp: convert_object_def put_error_def put_line_def
             split: sum.splits prod.splits if_splits option.splits
             dest!: loop intro: closed)
qed

lemma convert_objects_lines_inv:
  "lines_inv False (json st) \<Longrightarrow> convert_objects objs k st = Some (Inr st')
     \<Longrightarrow> lines_inv False (json st')"
proof (induction objs arbitrary: k st)
  case Nil
  then show ?case by simp
next
  case (Cons obj objs)
  from Cons.prems(2) obtain st1 where
    s1: "convert_object obj (k + 1) st = Some (Inr st1)"
    and s2: "convert_objects objs (k + 1) st1 = Some (Inr st')"
    by (auto split: option.splits sum.splits)
  from convert_object_lines_inv [OF Cons.prems(1) s1] have "lines_inv False (json st1)" .
  from Cons.IH [OF this s2] show ?case .
qed

lemma convert_lines:
  assumes "convert objs = Some (Inr (lines, msgs))"
  shows "lines = [json_open, json_close] \<or> (\<exists>r. lines = json_open # r \<and> ok_lines r)"
proof -
  from assms obtain st where
    st: "convert_objects objs 0 \<lparr>json = [json_open], object_names = [], obj_errors = []\<rparr>
           = Some (Inr st)"
    and l: "lines = json st @ [json_close]"
    by (auto simp: convert_def split: option.splits sum.splits)
  have "lines_inv False (json \<lparr>json = [json_open], object_names = [], obj_errors = []\<rparr>)"
    by (simp add: lines_inv_def)
  from convert_objects_lines_inv [OF this st] have inv: "lines_inv False (json st)" .
  show ?thesis
  proof (cases "json st = [json_open]")
    case True
    with l show ?thesis by simp
  next
    case False
    with inv have last: "last (json st) = object_close" and ok: "ok_lines (json st)"
      by (auto simp: lines_inv_def)
    from inv obtain r where r: "json st = json_open # r" by (auto simp: lines_inv_def)
    from ok last have "ok_lines (json st @ [json_close])"
      by (simp add: ok_lines_append closers strip_object_close_clean)
    with r have "ok_lines (json_open # r @ [json_close])" by simp
    then have "ok_lines (r @ [json_close])" by (rule ok_lines_tail)
    with l r show ?thesis by simp
  qed
qed

text \<open>
  C4: for every list of records, whenever \<^verbatim>\<open>convert\<close> returns and \<^verbatim>\<open>flush\<close> writes the
  file, no written string with a trailing comma is followed by a closing line: neither
  the last field line of an object block nor the last object block before the final
  \<^verbatim>\<open>}\<close> keeps its separator.
\<close>

theorem no_trailing_comma_written:
  assumes "convert objs = Some (Inr (lines, msgs))"
    and "flush counter lines = Some (Some written, msgs')"
  shows "no_comma_before_close written"
proof -
  from assms(2) obtain s1 s2 rest where
    l: "lines = s1 # s2 # rest" and w: "written = s1 # flush_loop s2 rest" and "rest \<noteq> []"
    by (auto simp: flush_def split: list.splits)
  with convert_lines [OF assms(1)] have s1: "s1 = json_open" and ok: "ok_lines (s2 # rest)"
    by auto
  obtain h t where ht: "flush_loop s2 rest = h # t"
    using flush_loop_nonempty [of s2 rest] by (cases "flush_loop s2 rest") auto
  have "\<not> trailing_comma json_open"
    by (simp add: json_open_def trailing_comma_def)
  with flush_loop_ok [OF ok] ht w s1 show ?thesis by simp
qed

theorem no_trailing_comma_written_witness:
  "convert [two_fields_record, filled_record] =
     Some (Inr ([json_open, object_header ''Alpha'', field_line ''count'' ''int'' ''5'',
                 field_line ''label'' ''string'' ''a,b'', object_close,
                 object_header ''A'', field_line ''count'' ''int'' ''5'', object_close,
                 json_close], []))
   \<and> flush 0 [json_open, object_header ''Alpha'', field_line ''count'' ''int'' ''5'',
               field_line ''label'' ''string'' ''a,b'', object_close,
               object_header ''A'', field_line ''count'' ''int'' ''5'', object_close,
               json_close] =
     Some (Some [json_open, object_header ''Alpha'', field_line ''count'' ''int'' ''5'',
                 [TAB, TAB, QUOTE] @ ''label'' @ [QUOTE] @ '': '' @ [QUOTE] @ ''ab'' @ [QUOTE, NL],
                 object_close,
                 object_header ''A'',
                 [TAB, TAB, QUOTE] @ ''count'' @ [QUOTE] @ '': 5'' @ [NL],
                 [TAB] @ '' }'' @ [NL], json_close], [])
   \<and> no_comma_before_close
        [json_open, object_header ''Alpha'', field_line ''count'' ''int'' ''5'',
         [TAB, TAB, QUOTE] @ ''label'' @ [QUOTE] @ '': '' @ [QUOTE] @ ''ab'' @ [QUOTE, NL],
         object_close,
         object_header ''A'',
         [TAB, TAB, QUOTE] @ ''count'' @ [QUOTE] @ '': 5'' @ [NL],
         [TAB] @ '' }'' @ [NL], json_close]"
proof -
  have c: "convert [two_fields_record, filled_record] =
     Some (Inr ([json_open, object_header ''Alpha'', field_line ''count'' ''int'' ''5'',
                 field_line ''label'' ''string'' ''a,b'', object_close,
                 object_header ''A'', field_line ''count'' ''int'' ''5'', object_close,
                 json_close], []))"
    by code_simp
  have f: "flush 0 [json_open, object_header ''Alpha'', field_line ''count'' ''int'' ''5'',
               field_line ''label'' ''string'' ''a,b'', object_close,
               object_header ''A'', field_line ''count'' ''int'' ''5'', object_close,
               json_close] =
     Some (Some [json_open, object_header ''Alpha'', field_line ''count'' ''int'' ''5'',
                 [TAB, TAB, QUOTE] @ ''label'' @ [QUOTE] @ '': '' @ [QUOTE] @ ''ab'' @ [QUOTE, NL],
                 object_close,
                 object_header ''A'',
                 [TAB, TAB, QUOTE] @ ''count'' @ [QUOTE] @ '': 5'' @ [NL],
                 [TAB] @ '' }'' @ [NL], json_close], [])"
    by code_simp
  from no_trailing_comma_written [OF c f] c f show ?thesis by blast
qed

text \<open>
  C6, as stated: every field group of type \<^verbatim>\<open>int\<close> whose value has a character that is
  not a digit is omitted with exactly one message, and the other groups of its record are
  processed. \<^verbatim>\<open>convert\<close> does not look at the groups of a record whose name is unset or
  was emitted before: here a record with no name has two such groups and a valid third,
  one message is sent, about the name, and nothing is emitted. And \<^verbatim>\<open>convert\<close> tests the
  value with \<^verbatim>\<open>str.isdigit\<close>, for which the superscript two is a digit: the group with the
  value \<^verbatim>\<open>5\<close> followed by U+00B2 is emitted and no message is sent.
\<close>

theorem int_group_counterexample:
  "get_value unnamed_groups_record ''<type>'' 2 = Inr (Some ''int'', 2)
   \<and> get_value unnamed_groups_record ''<value>'' 3 = Inr (Some ''five'', 3)
   \<and> get_value unnamed_groups_record ''<type>'' 5 = Inr (Some ''int'', 5)
   \<and> get_value unnamed_groups_record ''<value>'' 6 = Inr (Some ''six'', 6)
   \<and> \<not> isdigit ''five'' \<and> \<not> isdigit ''six''
   \<and> convert [unnamed_groups_record] =
       Some (Inr ([json_open, json_close], [obj_error_message 1 ''Object name was not set'']))
   \<and> get_value superscript_record ''<type>'' 2 = Inr (Some ''int'', 2)
   \<and> get_value superscript_record ''<value>'' 3 = Inr (Some [CHR ''5'', CHR 0xB2], 3)
   \<and> CHR 0xB2 \<notin> set ''0123456789''
   \<and> convert [superscript_record] =
       Some (Inr ([json_open, object_header ''A'',
                   field_line ''count'' ''int'' [CHR ''5'', CHR 0xB2],
                   object_close, json_close], []))"
  by code_simp

text \<open>
  C6, amended: when the loop over the field groups of a record reads a group whose type is
  \<^verbatim>\<open>int\<close> and whose value \<^verbatim>\<open>str.isdigit\<close> rejects (the value is empty, or one of its
  characters is neither \<^verbatim>\<open>0\<close> to \<^verbatim>\<open>9\<close> nor one of the superscripts U+00B2, U+00B3 and
  U+00B9), that pass puts no line on the queue, accepts no name, sends exactly one message,
  and the loop goes on with the groups after this one. The message is the one about the
  integer, or the one about missing fields when the name of the group is unset. A record
  whose name is unset or is already in use gets exactly one message, about its name, and
  the loop does not run for it.
\<close>

theorem int_group_with_non_digit_skipped:
  "(index \<noteq> - 1 \<and> get_value obj ''<name>'' (index + 1) = Inr (f_name, i1) \<and> i1 \<noteq> - 1
      \<and> get_value obj ''<type>'' (i1 + 1) = Inr (Some ''int'', i2)
      \<and> get_value obj ''<value>'' (i2 + 1) = Inr (Some v, i3)
      \<and> \<not> isdigit v
    \<longrightarrow> fields_step obj k name index correct st =
          Continue i3 correct
            (st\<lparr>obj_errors := obj_errors st @
                  [obj_error_message (int k)
                     (if f_name = None then ''Required fields were not filled''
                      else ''Field value is not an integer: '' @ [QUOTE] @ v @ [QUOTE])]\<rparr>)
        \<and> fields_loop obj k name index correct st =
            fields_loop obj k name i3 correct
              (st\<lparr>obj_errors := obj_errors st @
                    [obj_error_message (int k)
                       (if f_name = None then ''Required fields were not filled''
                        else ''Field value is not an integer: '' @ [QUOTE] @ v @ [QUOTE])]\<rparr>))
   \<and> (get_value obj ''<obj_name>'' 0 = Inr (None, i)
      \<longrightarrow> convert_object obj k st =
            Some (Inr (st\<lparr>obj_errors := obj_errors st @
                            [obj_error_message (int k) ''Object name was not set'']\<rparr>)))
   \<and> (get_value obj ''<obj_name>'' 0 = Inr (Some n, i) \<and> n \<in> set (object_names st)
      \<longrightarrow> convert_object obj k st =
            Some (Inr (st\<lparr>obj_errors := obj_errors st @
                            [obj_error_message (int k)
                               (''Duplicate object name: '' @ [QUOTE] @ n @ [QUOTE])]\<rparr>)))"
proof (intro conjI impI)
  assume a: "index \<noteq> - 1 \<and> get_value obj ''<name>'' (index + 1) = Inr (f_name, i1) \<and> i1 \<noteq> - 1
      \<and> get_value obj ''<type>'' (i1 + 1) = Inr (Some ''int'', i2)
      \<and> get_value obj ''<value>'' (i2 + 1) = Inr (Some v, i3)
      \<and> \<not> isdigit v"
  then show step: "fields_step obj k name index correct st =
          Continue i3 correct
            (st\<lparr>obj_errors := obj_errors st @
                  [obj_error_message (int k)
                     (if f_name = None then ''Required fields were not filled''
                      else ''Field value is not an integer: '' @ [QUOTE] @ v @ [QUOTE])]\<rparr>)"
    by (simp add: fields_step_def put_error_def)
  then show "fields_loop obj k name index correct st =
            fields_loop obj k name i3 correct
              (st\<lparr>obj_errors := obj_errors st @
                    [obj_error_message (int k)
                       (if f_name = None then ''Required fields were not filled''
                        else ''Field value is not an integer: '' @ [QUOTE] @ v @ [QUOTE])]\<rparr>)"
    by (subst fields_loop.simps) simp
next
  assume "get_value obj ''<obj_name>'' 0 = Inr (None, i)"
  then show "convert_object obj k st =
            Some (Inr (st\<lparr>obj_errors := obj_errors st @
                            [obj_error_message (int k) ''Object name was not set'']\<rparr>))"
    by (simp add: convert_object_def put_error_def)
next
  assume "get_value obj ''<obj_name>'' 0 = Inr (Some n, i) \<and> n \<in> set (object_names st)"
  then show "convert_object obj k st =
            Some (Inr (st\<lparr>obj_errors := obj_errors st @
                            [obj_error_message (int k)
                               (''Duplicate object name: '' @ [QUOTE] @ n @ [QUOTE])]\<rparr>))"
    by (simp add: convert_object_def put_error_def)
qed

theorem int_group_with_non_digit_skipped_witness:
  "(0::int) \<noteq> - 1 \<and> get_value bad_int_record ''<name>'' (0 + 1) = Inr (Some ''count'', 1)
   \<and> (1::int) \<noteq> - 1
   \<and> get_value bad_int_record ''<type>'' (1 + 1) = Inr (Some ''int'', 2)
   \<and> get_value bad_int_record ''<value>'' (2 + 1) = Inr (Some ''five'', 3)
   \<and> \<not> isdigit ''five''
   \<and> fields_step bad_int_record 1 ''A'' 0 False empty_state =
       Continue 3 False
         (empty_state\<lparr>obj_errors := obj_errors empty_state @
            [obj_error_message 1
               (''Field value is not an integer: '' @ [QUOTE] @ ''five'' @ [QUOTE])]\<rparr>)
   \<and> fields_loop bad_int_record 1 ''A'' 0 False empty_state =
       fields_loop bad_int_record 1 ''A'' 3 False
         (empty_state\<lparr>obj_errors := obj_errors empty_state @
            [obj_error_message 1
               (''Field value is not an integer: '' @ [QUOTE] @ ''five'' @ [QUOTE])]\<rparr>)
   \<and> get_value unnamed_groups_record ''<obj_name>'' 0 = Inr (None, 0)
   \<and> convert_object unnamed_groups_record 1 empty_state =
       Some (Inr (empty_state\<lparr>obj_errors := obj_errors empty_state @
                    [obj_error_message 1 ''Object name was not set'']\<rparr>))
   \<and> get_value bad_int_record ''<obj_name>'' 0 = Inr (Some ''A'', 0)
   \<and> ''A'' \<in> set (object_names after_first)
   \<and> convert_object bad_int_record 2 after_first =
       Some (Inr (after_first\<lparr>obj_errors := obj_errors after_first @
                    [obj_error_message 2
                       (''Duplicate object name: '' @ [QUOTE] @ ''A'' @ [QUOTE])]\<rparr>))"
proof -
  have h: "(0::int) \<noteq> - 1 \<and> get_value bad_int_record ''<name>'' (0 + 1) = Inr (Some ''count'', 1)
     \<and> (1::int) \<noteq> - 1
     \<and> get_value bad_int_record ''<type>'' (1 + 1) = Inr (Some ''int'', 2)
     \<and> get_value bad_int_record ''<value>'' (2 + 1) = Inr (Some ''five'', 3)
     \<and> \<not> isdigit ''five''"
    by (simp add: get_value_def bad_int_record_def isdigit_def digit_char_def)
  have g: "get_value unnamed_groups_record ''<obj_name>'' 0 = Inr (None, 0)"
    by (simp add: get_value_def unnamed_groups_record_def)
  have d: "get_value bad_int_record ''<obj_name>'' 0 = Inr (Some ''A'', 0)
           \<and> ''A'' \<in> set (object_names after_first)"
    by (simp add: get_value_def bad_int_record_def after_first_def)
  note t1 = int_group_with_non_digit_skipped
     [where index = 0 and obj = bad_int_record and f_name = "Some ''count''" and ?i1.0 = 1
        and ?i2.0 = 2 and v = "''five''" and ?i3.0 = 3 and k = 1 and name = "''A''"
        and correct = False and st = empty_state, THEN conjunct1, rule_format, OF h]
  note t2 = int_group_with_non_digit_skipped
     [where obj = unnamed_groups_record and i = 0 and k = 1 and st = empty_state,
      THEN conjunct2, THEN conjunct1, rule_format, OF g]
  note t3 = int_group_with_non_digit_skipped
     [where obj = bad_int_record and i = 0 and n = "''A''" and k = 2 and st = after_first,
      THEN conjunct2, THEN conjunct2, rule_format, OF d]
  from t1 have t1': "fields_step bad_int_record 1 ''A'' 0 False empty_state =
       Continue 3 False
         (empty_state\<lparr>obj_errors := obj_errors empty_state @
            [obj_error_message 1
               (''Field value is not an integer: '' @ [QUOTE] @ ''five'' @ [QUOTE])]\<rparr>)
   \<and> fields_loop bad_int_record 1 ''A'' 0 False empty_state =
       fields_loop bad_int_record 1 ''A'' 3 False
         (empty_state\<lparr>obj_errors := obj_errors empty_state @
            [obj_error_message 1
               (''Field value is not an integer: '' @ [QUOTE] @ ''five'' @ [QUOTE])]\<rparr>)"
    by simp
  from t2 have t2': "convert_object unnamed_groups_record 1 empty_state =
       Some (Inr (empty_state\<lparr>obj_errors := obj_errors empty_state @
                    [obj_error_message 1 ''Object name was not set'']\<rparr>))"
    by simp
  from t3 have t3': "convert_object bad_int_record 2 after_first =
       Some (Inr (after_first\<lparr>obj_errors := obj_errors after_first @
                    [obj_error_message 2
                       (''Duplicate object name: '' @ [QUOTE] @ ''A'' @ [QUOTE])]\<rparr>))"
    by simp
  from h g d t1' t2' t3' show ?thesis by blast
qed

lemma fields_step_names:
  "fields_step obj k n index correct st = Continue i c s \<Longrightarrow>
     set (object_names st) \<subseteq> set (object_names s)"
  by (auto simp: fields_step_def put_error_def put_line_def begin_object_def
           split: if_splits sum.splits prod.splits)

lemma fields_loop_names:
  assumes "fields_loop obj k n index correct st = Some (Inr (c, s))"
  shows "set (object_names st) \<subseteq> set (object_names s)"
  using assms
  by (rule fields_loop_invariant [where I = "\<lambda>c s. set (object_names st) \<subseteq> set (object_names s)"])
     (use fields_step_names in blast)+

lemma convert_object_names:
  "convert_object obj k st = Some (Inr st') \<Longrightarrow>
     set (object_names st) \<subseteq> set (object_names st')"
  by (auto simp: convert_object_def put_error_def put_line_def
           split: sum.splits prod.splits if_splits option.splits
           dest!: fields_loop_names)

lemma convert_objects_names:
  "convert_objects objs k st = Some (Inr st') \<Longrightarrow>
     set (object_names st) \<subseteq> set (object_names st')"
proof (induction objs arbitrary: k st)
  case Nil
  then show ?case by simp
next
  case (Cons obj objs)
  from Cons.prems obtain st1 where
    s1: "convert_object obj (k + 1) st = Some (Inr st1)"
    and s2: "convert_objects objs (k + 1) st1 = Some (Inr st')"
    by (auto split: option.splits sum.splits)
  from convert_object_names [OF s1] Cons.IH [OF s2] show ?case by blast
qed

lemma fields_step_emitted:
  assumes "if correct
           then n \<in> set (object_names st) \<and> (\<exists>ls. json st = js @ object_header n # ls)
           else json st = js"
    and "fields_step obj k n index correct st = Continue i c s"
  shows "if c then n \<in> set (object_names s) \<and> (\<exists>ls. json s = js @ object_header n # ls)
         else json s = js"
  using assms
  by (auto simp: fields_step_def put_error_def put_line_def begin_object_def
           split: if_splits sum.splits prod.splits)

lemma convert_object_emitted:
  assumes "convert_object obj k st = Some (Inr st')"
    and "json st' \<noteq> json st"
    and "get_value obj ''<obj_name>'' 0 = Inr (Some n, i)"
  shows "n \<in> set (object_names st') \<and> (\<exists>ls. json st' = json st @ object_header n # ls)"
proof -
  have loop: "if c then n \<in> set (object_names s)
                        \<and> (\<exists>ls. json s = json st @ object_header n # ls)
              else json s = json st"
    if "fields_loop obj k n i False st = Some (Inr (c, s))" for c s
    using that
    by (rule fields_loop_invariant
          [where I = "\<lambda>c s. if c then n \<in> set (object_names s)
                                      \<and> (\<exists>ls. json s = json st @ object_header n # ls)
                            else json s = json st"])
       (simp, rule fields_step_emitted)
  from assms show ?thesis
    by (auto simp: convert_object_def put_error_def put_line_def
             split: sum.splits prod.splits if_splits option.splits
             dest!: loop)
qed

lemma fields_step_kept:
  assumes "if correct then \<exists>l ls. json st = js @ l # ls
           else json st = js \<and> object_names st = ns"
    and "fields_step obj k n index correct st = Continue i c s"
  shows "if c then \<exists>l ls. json s = js @ l # ls
         else json s = js \<and> object_names s = ns"
  using assms
  by (auto simp: fields_step_def put_error_def put_line_def begin_object_def
           split: if_splits sum.splits prod.splits)

lemma convert_object_kept:
  assumes "convert_object obj k st = Some (Inr st')"
    and "json st' = json st"
  shows "object_names st' = object_names st"
proof -
  have loop: "if c then \<exists>l ls. json s = json st @ l # ls
              else json s = json st \<and> object_names s = object_names st"
    if "fields_loop obj k n i False st = Some (Inr (c, s))" for n i c s
    using that
    by (rule fields_loop_invariant
          [where I = "\<lambda>c s. if c then \<exists>l ls. json s = json st @ l # ls
                            else json s = json st \<and> object_names s = object_names st"])
       (simp, rule fields_step_kept)
  from assms show ?thesis
    by (auto simp: convert_object_def put_error_def put_line_def
             split: sum.splits prod.splits if_splits option.splits
             dest!: loop)
qed

text \<open>
  C5, as stated: of two records with equal names the first is emitted and the second is
  omitted with one message. When the first has no valid field group its name is not kept:
  here the first record is omitted for its value \<^verbatim>\<open>five\<close>, the second, of the same name,
  is emitted, and no message names a duplicate.
\<close>

theorem duplicate_name_counterexample:
  "get_value bad_int_record ''<obj_name>'' 0 = Inr (Some ''A'', 0)
   \<and> get_value filled_record ''<obj_name>'' 0 = Inr (Some ''A'', 0)
   \<and> convert [bad_int_record, filled_record] =
       Some (Inr ([json_open, object_header ''A'', field_line ''count'' ''int'' ''5'',
                   object_close, json_close],
                  [obj_error_message 1
                     (''Field value is not an integer: '' @ [QUOTE] @ ''five'' @ [QUOTE])]))"
  by code_simp

text \<open>
  C5, amended: for every pair of records with equal, set names: if the conversion of the
  first puts lines on the queue, then these lines start with the header of that name, and
  the conversion of the second, any number of records later, puts no line on the queue,
  accepts no name and sends exactly one message, which names the duplicate; if the
  conversion of the first puts no line on the queue, it leaves the list of the names in use
  as it was.
\<close>

theorem duplicate_name_omitted:
  assumes first: "convert_object a ka st1 = Some (Inr st2)"
    and name_a: "get_value a ''<obj_name>'' 0 = Inr (Some n, ia)"
    and between: "convert_objects mid km st2 = Some (Inr st3)"
    and name_b: "get_value b ''<obj_name>'' 0 = Inr (Some n, ib)"
  shows "if json st2 \<noteq> json st1 then
           (\<exists>ls. json st2 = json st1 @ object_header n # ls)
           \<and> convert_object b kb st3 =
               Some (Inr (st3\<lparr>obj_errors := obj_errors st3 @ [duplicate_message kb n]\<rparr>))
         else object_names st2 = object_names st1"
proof (cases "json st2 = json st1")
  case True
  with convert_object_kept [OF first] show ?thesis by simp
next
  case False
  from convert_object_emitted [OF first False name_a]
  have n: "n \<in> set (object_names st2)" and e: "\<exists>ls. json st2 = json st1 @ object_header n # ls"
    by auto
  from n convert_objects_names [OF between] have "n \<in> set (object_names st3)" by blast
  with name_b e False show ?thesis
    by (simp add: convert_object_def put_error_def duplicate_message_def)
qed

theorem duplicate_name_omitted_witness:
  "convert_object filled_record 1 empty_state = Some (Inr after_first)
   \<and> json after_first \<noteq> json empty_state
   \<and> get_value filled_record ''<obj_name>'' 0 = Inr (Some ''A'', 0)
   \<and> convert_objects [two_fields_record] 1 after_first = Some (Inr after_second)
   \<and> get_value bad_int_record ''<obj_name>'' 0 = Inr (Some ''A'', 0)
   \<and> (\<exists>ls. json after_first = json empty_state @ object_header ''A'' # ls)
   \<and> convert_object bad_int_record 3 after_second =
       Some (Inr (after_second
                    \<lparr>obj_errors := obj_errors after_second @ [duplicate_message 3 ''A'']\<rparr>))
   \<and> convert_object bad_int_record 1 empty_state =
       Some (Inr (put_error empty_state 1
                    (''Field value is not an integer: '' @ [QUOTE] @ ''five'' @ [QUOTE])))
   \<and> json (put_error empty_state 1
             (''Field value is not an integer: '' @ [QUOTE] @ ''five'' @ [QUOTE]))
       = json empty_state
   \<and> object_names (put_error empty_state 1
                     (''Field value is not an integer: '' @ [QUOTE] @ ''five'' @ [QUOTE]))
       = object_names empty_state"
proof -
  have h: "convert_object filled_record 1 empty_state = Some (Inr after_first)"
    "get_value filled_record ''<obj_name>'' 0 = Inr (Some ''A'', 0)"
    "convert_objects [two_fields_record] 1 after_first = Some (Inr after_second)"
    "get_value bad_int_record ''<obj_name>'' 0 = Inr (Some ''A'', 0)"
    by code_simp+
  have e: "(json after_first \<noteq> json empty_state) = True"
    by (simp add: after_first_def empty_state_def)
  have g: "convert_object bad_int_record 1 empty_state =
       Some (Inr (put_error empty_state 1
                    (''Field value is not an integer: '' @ [QUOTE] @ ''five'' @ [QUOTE])))"
    "convert_objects [] 0
       (put_error empty_state 1
          (''Field value is not an integer: '' @ [QUOTE] @ ''five'' @ [QUOTE]))
      = Some (Inr (put_error empty_state 1
                     (''Field value is not an integer: '' @ [QUOTE] @ ''five'' @ [QUOTE])))"
    by code_simp+
  have f: "(json (put_error empty_state 1
             (''Field value is not an integer: '' @ [QUOTE] @ ''five'' @ [QUOTE]))
       \<noteq> json empty_state) = False"
    by (simp add: put_error_def)
  note r1 = duplicate_name_omitted [OF h, of 3, unfolded e if_True]
  note r2 = duplicate_name_omitted [OF g(1) h(4) g(2) h(4), of 0, unfolded f if_False]
  from f have f': "json (put_error empty_state 1
             (''Field value is not an integer: '' @ [QUOTE] @ ''five'' @ [QUOTE]))
       = json empty_state" by simp
  from e have e': "json after_first \<noteq> json empty_state" by simp
  from r1 have r1a: "\<exists>ls. json after_first = json empty_state @ object_header ''A'' # ls"
    and r1b: "convert_object bad_int_record 3 after_second =
       Some (Inr (after_second
                    \<lparr>obj_errors := obj_errors after_second @ [duplicate_message 3 ''A'']\<rparr>))"
    by blast+
  show ?thesis
    by (intro conjI h e' r1a r1b g(1) f' r2)
qed

lemma obj_error_message_not_final:
  "obj_error_message (int k) message \<noteq> nothing_to_write"
  "nothing_to_write \<noteq> obj_error_message (int k) message"
  by (simp_all add: obj_error_message_def nothing_to_write_def)

lemma fields_step_messages:
  assumes "\<forall>m\<in>set (obj_errors st). m \<noteq> nothing_to_write"
    and "fields_step obj k n index correct st = Continue i c s"
  shows "\<forall>m\<in>set (obj_errors s). m \<noteq> nothing_to_write"
  using assms
  by (auto simp: fields_step_def put_error_def put_line_def begin_object_def
        obj_error_message_not_final
           split: if_splits sum.splits prod.splits)

lemma convert_object_messages:
  assumes "\<forall>m\<in>set (obj_errors st). m \<noteq> nothing_to_write"
    and "convert_object obj k st = Some (Inr st')"
  shows "\<forall>m\<in>set (obj_errors st'). m \<noteq> nothing_to_write"
proof -
  have loop: "\<forall>m\<in>set (obj_errors s). m \<noteq> nothing_to_write"
    if "fields_loop obj k n i False st = Some (Inr (c, s))" for n i c s
    using that assms(1)
    by (rule fields_loop_invariant
          [where I = "\<lambda>c s. \<forall>m\<in>set (obj_errors s). m \<noteq> nothing_to_write"])
       (rule fields_step_messages)
  from assms show ?thesis
    by (auto simp: convert_object_def put_error_def put_line_def obj_error_message_not_final
             split: sum.splits prod.splits if_splits option.splits
             dest!: loop)
qed

lemma convert_objects_messages:
  "\<forall>m\<in>set (obj_errors st). m \<noteq> nothing_to_write \<Longrightarrow>
   convert_objects objs k st = Some (Inr st') \<Longrightarrow>
   \<forall>m\<in>set (obj_errors st'). m \<noteq> nothing_to_write"
proof (induction objs arbitrary: k st)
  case Nil
  then show ?case by simp
next
  case (Cons obj objs)
  from Cons.prems(2) obtain st1 where
    s1: "convert_object obj (k + 1) st = Some (Inr st1)"
    and s2: "convert_objects objs (k + 1) st1 = Some (Inr st')"
    by (auto split: option.splits sum.splits)
  from convert_object_messages [OF Cons.prems(1) s1] Cons.IH [OF _ s2] show ?case by blast
qed

lemma convert_messages:
  assumes "convert objs = Some (Inr (lines, msgs))"
  shows "nothing_to_write \<notin> set msgs"
proof -
  from assms obtain st where
    st: "convert_objects objs 0 \<lparr>json = [json_open], object_names = [], obj_errors = []\<rparr>
           = Some (Inr st)"
    and m: "msgs = obj_errors st"
    by (auto simp: convert_def split: option.splits sum.splits)
  from convert_objects_messages [OF _ st] m show ?thesis by auto
qed

text \<open>
  C7, as stated: with no valid record to write, no file is written and exactly one message
  says so. When no record was completed at all, \<^verbatim>\<open>run\<close> calls neither \<^verbatim>\<open>convert\<close> nor
  \<^verbatim>\<open>flush\<close>: nothing is written and nothing is reported.
\<close>

theorem nothing_to_write_counterexample:
  "run False [] (new_Converter [] object_tag) = Some (Inr (new_Converter [] object_tag, None))
   \<and> error_stream (new_Converter [] object_tag) = []"
  by code_simp

text \<open>
  C7, amended: when no record was completed, nothing is written and no message is sent.
  When at least one was completed and \<^verbatim>\<open>convert\<close> puts nothing between the opening and
  the closing line, no file is written and the messages sent are those of \<^verbatim>\<open>convert\<close>
  followed by one message that there is nothing to write, which is none of the former.
\<close>

theorem nothing_to_write_reported:
  "(objects c = [] \<longrightarrow> serialize c = Some (Inr (c, None)))
   \<and> (objects c \<noteq> [] \<longrightarrow> convert (objects c) = Some (Inr ([json_open, json_close], msgs)) \<longrightarrow>
        serialize c =
          Some (Inr (c\<lparr>error_stream := error_stream c @ msgs @ [nothing_to_write]\<rparr>, None))
        \<and> nothing_to_write \<notin> set msgs)"
  by (auto simp: serialize_def flush_def nothing_to_write_def [symmetric] dest: convert_messages)

theorem nothing_to_write_reported_witness:
  "objects (finished_converter [unnamed_record, bad_int_record]) \<noteq> []
   \<and> convert (objects (finished_converter [unnamed_record, bad_int_record])) =
       Some (Inr ([json_open, json_close],
                  [obj_error_message 1 ''Object name was not set'',
                   obj_error_message 2
                     (''Field value is not an integer: '' @ [QUOTE] @ ''five'' @ [QUOTE])]))
   \<and> serialize (finished_converter [unnamed_record, bad_int_record]) =
       Some (Inr ((finished_converter [unnamed_record, bad_int_record])
                    \<lparr>error_stream :=
                       error_stream (finished_converter [unnamed_record, bad_int_record])
                       @ [obj_error_message 1 ''Object name was not set'',
                          obj_error_message 2
                            (''Field value is not an integer: '' @ [QUOTE] @ ''five'' @ [QUOTE])]
                       @ [nothing_to_write]\<rparr>, None))
   \<and> objects (finished_converter []) = []
   \<and> serialize (finished_converter []) = Some (Inr (finished_converter [], None))"
proof -
  have h: "objects (finished_converter [unnamed_record, bad_int_record]) \<noteq> []"
    "convert (objects (finished_converter [unnamed_record, bad_int_record])) =
       Some (Inr ([json_open, json_close],
                  [obj_error_message 1 ''Object name was not set'',
                   obj_error_message 2
                     (''Field value is not an integer: '' @ [QUOTE] @ ''five'' @ [QUOTE])]))"
    "objects (finished_converter []) = []"
    by code_simp+
  from nothing_to_write_reported [of "finished_converter [unnamed_record, bad_int_record]"]
    nothing_to_write_reported [of "finished_converter []"] h
  show ?thesis by blast
qed

section \<open>Properties of the validator\<close>

lemma recovery_loop_resync:
  "recovery_loop root s st =
     (case dropWhile (\<lambda>a. \<not> resync_point root s a) st of
        [] \<Rightarrow> []
      | a # rest \<Rightarrow>
          (case find_child a s of
             Some child \<Rightarrow> child # a # rest
           | None \<Rightarrow> a # rest))"
proof (induction st)
  case Nil
  show ?case by (subst recovery_loop.simps) (simp add: stack_top_def)
next
  case (Cons a st)
  show ?case
    by (subst recovery_loop.simps)
       (auto simp: stack_top_def resync_point_def push_def pop_def Cons
             split: option.splits)
qed

text \<open>
  C2, as stated: inside a record with a container on top, a tag that is neither a child of
  the top, nor the top, nor its matching close starts the recovery search. A closing tag is
  such a tag and is only reported: with \<^verbatim>\<open><object>\<close> on top, \<^verbatim>\<open></field>\<close> leaves the stack
  as it is, where the search would empty it.
\<close>

theorem recovery_counterexample:
  "stack_top (stack at_object) = Some object_tag \<and> has_child object_tag
   \<and> queue at_object = [''</field>'']
   \<and> matching_tag (node_value object_tag) = Inr ''</object>''
   \<and> find_child object_tag ''</field>'' = None \<and> node_value object_tag \<noteq> ''</field>''
   \<and> ''</field>'' \<noteq> ''</object>''
   \<and> resynchronized object_tag ''</field>'' (stack at_object) = []
   \<and> iteration at_object =
       Inr (at_object\<lparr>queue := [], string_counter := 10,
              error_stream :=
                [error_message 10 ''Not a proper closing tag to <object>'' ''</field>'']\<rparr>)"
  by (simp add: at_object_def object_tag_def field_tag_def stack_top_def has_child_def
        matching_tag_def find_child_def resynchronized_def pop_def resync_point_def
        iteration_def read_string_def error_def)

text \<open>
  C2, amended: inside a record with a container on top, a string that is neither a child of
  the top, nor the top's tag, nor its matching close is consumed with exactly one message;
  the current record, the completed records and the rest of the queue stay as they were.
  When the string is not shaped like a closing tag (more than two characters, the second a
  slash) the stack becomes what the recovery search of the specification gives; when it is
  shaped like a closing tag the message is \<^verbatim>\<open>Not a proper closing tag to\<close> the top's tag and
  the stack stays as it was.
\<close>

theorem recovery_resynchronizes:
  assumes "stack_top (stack c) = Some t" and "has_child t"
    and "queue c = s # q"
    and "matching_tag (node_value t) = Inr closing" and "s \<noteq> closing"
    and "find_child t s = None" and "node_value t \<noteq> s"
  shows "iteration c =
           (if length s > 2 \<and> s ! 1 = CHR ''/'' then
              Inr (c\<lparr>queue := q, string_counter := string_counter c + 1,
                     error_stream :=
                       error_stream c @
                       [error_message (string_counter c + 1)
                          (''Not a proper closing tag to '' @ node_value t) s]\<rparr>)
            else
              Inr (c\<lparr>queue := q, string_counter := string_counter c + 1,
                     error_stream :=
                       error_stream c @
                       [error_message (string_counter c + 1)
                          (''This does not belong after '' @ node_value t @ '' tag'') s],
                     stack := resynchronized (conv_structure c) s (stack c)\<rparr>))"
  using assms
  by (auto simp: iteration_def read_string_def error_def resynchronized_def recovery_loop_resync)

theorem recovery_resynchronizes_witness:
  "stack_top (stack in_object) = Some field_tag \<and> has_child field_tag
   \<and> queue in_object = [''<obj_name>'', ''B'']
   \<and> matching_tag (node_value field_tag) = Inr ''</field>''
   \<and> find_child field_tag ''<obj_name>'' = None
   \<and> resynchronized object_tag ''<obj_name>'' (stack in_object)
       = [Node ''<obj_name>'' False None [], object_tag]
   \<and> iteration in_object =
       Inr (in_object\<lparr>queue := [''B''], string_counter := 10,
              error_stream :=
                [error_message 10 ''This does not belong after <field> tag'' ''<obj_name>''],
              stack := [Node ''<obj_name>'' False None [], object_tag]\<rparr>)
   \<and> stack_top (stack at_object) = Some object_tag \<and> has_child object_tag
   \<and> queue at_object = [''</field>'']
   \<and> matching_tag (node_value object_tag) = Inr ''</object>''
   \<and> find_child object_tag ''</field>'' = None
   \<and> iteration at_object =
       Inr (at_object\<lparr>queue := [], string_counter := 10,
              error_stream :=
                [error_message 10 ''Not a proper closing tag to <object>'' ''</field>'']\<rparr>)"
proof -
  have h: "stack_top (stack in_object) = Some field_tag" "has_child field_tag"
    "queue in_object = [''<obj_name>'', ''B'']"
    "matching_tag (node_value field_tag) = Inr ''</field>''" "''<obj_name>'' \<noteq> ''</field>''"
    "find_child field_tag ''<obj_name>'' = None" "node_value field_tag \<noteq> ''<obj_name>''"
    by (simp_all add: in_object_def object_tag_def field_tag_def stack_top_def has_child_def
        matching_tag_def find_child_def)
  have g: "stack_top (stack at_object) = Some object_tag" "has_child object_tag"
    "queue at_object = [''</field>'']"
    "matching_tag (node_value object_tag) = Inr ''</object>''" "''</field>'' \<noteq> ''</object>''"
    "find_child object_tag ''</field>'' = None" "node_value object_tag \<noteq> ''</field>''"
    by (simp_all add: at_object_def object_tag_def field_tag_def stack_top_def has_child_def
        matching_tag_def find_child_def)
  have r: "resynchronized object_tag ''<obj_name>'' (stack in_object)
       = [Node ''<obj_name>'' False None [], object_tag]"
    by (simp add: in_object_def object_tag_def field_tag_def resynchronized_def pop_def
        resync_point_def find_child_def)
  have v: "node_value field_tag = ''<field>''" "node_value object_tag = ''<object>''"
    by (simp_all add: field_tag_def object_tag_def)
  have a: "iteration in_object =
       Inr (in_object\<lparr>queue := [''B''], string_counter := 10,
              error_stream :=
                [error_message 10 ''This does not belong after <field> tag'' ''<obj_name>''],
              stack := [Node ''<obj_name>'' False None [], object_tag]\<rparr>)"
    using recovery_resynchronizes [OF h] r by (simp add: in_object_def v)
  have b: "iteration at_object =
       Inr (at_object\<lparr>queue := [], string_counter := 10,
              error_stream :=
                [error_message 10 ''Not a proper closing tag to <object>'' ''</field>'']\<rparr>)"
    using recovery_resynchronizes [OF g] by (simp add: at_object_def v)
  show ?thesis
    by (intro conjI h(1,2,3,4,6) g(1,2,3,4,6) r a b)
qed

section \<open>Properties of a whole run\<close>

lemma passes_trans: "passes a b \<Longrightarrow> passes b c \<Longrightarrow> passes a c"
  by (induction rule: passes.induct) (auto intro: passes.intros)

lemma passes_one:
  "queue c \<noteq> [] \<Longrightarrow> closing_follows c \<Longrightarrow> iteration c = Inr c' \<Longrightarrow> passes c c'"
  by (blast intro: passes.intros)

lemma closing_follows_empty: "stack c = [] \<Longrightarrow> closing_follows c"
  by (simp add: closing_follows_def stack_top_def)

lemma closing_follows_container: "stack c = t # st \<Longrightarrow> has_child t \<Longrightarrow> closing_follows c"
  by (simp add: closing_follows_def stack_top_def)

lemma closing_follows_value:
  "stack c = t # st \<Longrightarrow> queue c = v # closing # q \<Longrightarrow> matching_tag (node_value t) = Inr closing
   \<Longrightarrow> node_value t \<noteq> node_value (conv_structure c) \<Longrightarrow> closing_follows c"
  by (simp add: closing_follows_def stack_top_def)

lemma iteration_open_root:
  assumes "stack c = []" and "queue c = node_value (conv_structure c) # q"
  shows "iteration c =
           Inr (c\<lparr>queue := q, string_counter := string_counter c + 1,
                  stack := [conv_structure c],
                  current_object := new_XMLObject (conv_structure c)\<rparr>)"
  using assms by (simp add: iteration_def stack_top_def read_string_def push_def)

lemma iteration_open_child:
  assumes "stack c = t # st" and "queue c = s # q"
    and "matching_tag (node_value t) = Inr closing" and "s \<noteq> closing"
    and "\<not> closing_shaped s" and "has_child t" and "find_child t s = Some child"
  shows "iteration c =
           Inr (c\<lparr>queue := q, string_counter := string_counter c + 1,
                  stack := child # t # st\<rparr>)"
  using assms
  by (auto simp: iteration_def stack_top_def read_string_def push_def closing_shaped_def)

lemma iteration_close:
  assumes "stack c = t # st" and "queue c = s # q"
    and "matching_tag (node_value t) = Inr s"
  shows "iteration c =
           Inr (c\<lparr>queue := q, string_counter := string_counter c + 1,
                  objects := (if node_value t = node_value (conv_structure c)
                              then objects c @ [current_object c] else objects c),
                  stack := st\<rparr>)"
  using assms
  by (simp add: iteration_def stack_top_def read_string_def pop_def)

lemma iteration_value:
  assumes "stack c = t # st" and "queue c = v # closing # q"
    and "matching_tag (node_value t) = Inr closing"
    and "children t = []"
    and "v \<noteq> []" and "hd v \<noteq> CHR ''<''" and "hd closing = CHR ''<''"
    and "\<not> closing_shaped v"
    and "set_value (current_object c) (node_value t) v (error_message (string_counter c + 1))
           = (Inr ok, obj, [])"
  shows "iteration c =
           Inr (c\<lparr>queue := q, string_counter := string_counter c + 2,
                  current_object := obj, stack := st\<rparr>)"
proof -
  from assms have ne: "v \<noteq> closing" by auto
  from assms have h: "v ! 0 \<noteq> CHR ''<''" by (cases v) auto
  show ?thesis
    using assms ne h
    by (auto simp: iteration_def stack_top_def read_string_def pop_def closing_shaped_def
          has_child_def)
qed

lemma last_index_triple:
  "last_index (T @ [a, b, c]) v =
     (if c = v then Some (length T + 2) else if b = v then Some (length T + 1)
      else if a = v then Some (length T) else last_index T v)"
  by (cases "index_of (rev T) v") (auto simp: last_index_def)

lemma tag_to_node_object_tag:
  "tag_to_node None object_tag ''<obj_name>'' = Some (Node ''<obj_name>'' False None [], Some object_tag)"
  "tag_to_node None object_tag ''<name>'' = Some (Node ''<name>'' False None [], Some field_tag)"
  "tag_to_node None object_tag ''<type>''
     = Some (Node ''<type>'' False (Some [''int'', ''string'']) [], Some field_tag)"
  "tag_to_node None object_tag ''<value>'' = Some (Node ''<value>'' False None [], Some field_tag)"
  by (simp_all add: object_tag_def field_tag_def)

lemma build_field_tag:
  "build field_tag obj =
     obj\<lparr>tags := tags obj @ group_tags, obj_values := obj_values obj @ [None, None, None]\<rparr>"
  by (simp add: field_tag_def group_tags_def)

lemma set_value_name_fresh:
  assumes "xml_structure obj = object_tag" and "tags obj = T @ group_tags"
    and "obj_values obj = V @ [None, b, c]" and "length T = length V"
  shows "set_value obj ''<name>'' n err = (Inr True, obj\<lparr>obj_values := V @ [Some n, b, c]\<rparr>, [])"
  using assms
  by (simp add: set_value_def group_tags_def last_index_triple tag_to_node_object_tag
        assign_value_def store_value_def)

lemma set_value_name_clone:
  assumes "xml_structure obj = object_tag" and "tags obj = T @ group_tags"
    and "obj_values obj = V @ [Some a, b, c]" and "length T = length V"
  shows "set_value obj ''<name>'' n err =
           (Inr True,
            obj\<lparr>tags := (T @ group_tags) @ group_tags,
                obj_values := (V @ [Some a, b, c]) @ [Some n, None, None]\<rparr>, [])"
proof -
  have r: "repeatable field_tag" by (simp add: field_tag_def)
  have l: "last_index ((T @ group_tags) @ group_tags) ''<name>'' = Some (length (T @ group_tags))"
    unfolding group_tags_def by (subst last_index_triple) simp
  have u: "((V @ [Some a, b, c]) @ [None, None, None])[length (T @ group_tags) := Some n]
           = (V @ [Some a, b, c]) @ [Some n, None, None]"
    using assms(4) by (simp add: group_tags_def list_update_append)
  have len: "length (T @ group_tags) < length ((V @ [Some a, b, c]) @ [None, None, None])"
    using assms(4) by (simp add: group_tags_def)
  have first: "last_index (T @ group_tags) ''<name>'' = Some (length T)"
    unfolding group_tags_def by (subst last_index_triple) simp
  have filled: "(V @ [Some a, b, c]) ! length T \<noteq> None"
    using assms(4) by (simp add: nth_append)
  show ?thesis
    using assms(1-3) r l u len first filled assms(4)
    by (simp add: set_value_def tag_to_node_object_tag build_field_tag
          assign_value_def store_value_def)
qed

lemma set_value_type:
  assumes "xml_structure obj = object_tag" and "tags obj = T @ group_tags"
    and "obj_values obj = V @ [a, None, c]" and "length T = length V"
    and "t = ''int'' \<or> t = ''string''"
  shows "set_value obj ''<type>'' t err = (Inr True, obj\<lparr>obj_values := V @ [a, Some t, c]\<rparr>, [])"
  using assms
  by (auto simp: set_value_def group_tags_def last_index_triple tag_to_node_object_tag
        assign_value_def store_value_def nth_append list_update_append)

lemma set_value_value:
  assumes "xml_structure obj = object_tag" and "tags obj = T @ group_tags"
    and "obj_values obj = V @ [a, b, None]" and "length T = length V"
  shows "set_value obj ''<value>'' v err = (Inr True, obj\<lparr>obj_values := V @ [a, b, Some v]\<rparr>, [])"
  using assms
  by (auto simp: set_value_def group_tags_def last_index_triple tag_to_node_object_tag
        assign_value_def store_value_def nth_append list_update_append)

lemma set_value_obj_name:
  "set_value (new_XMLObject object_tag) ''<obj_name>'' name err =
     (Inr True,
      \<lparr>xml_structure = object_tag, tags = ''<obj_name>'' # group_tags,
       obj_values = [Some name, None, None, None]\<rparr>, [])"
  by (simp add: new_XMLObject_def object_tag_def field_tag_def set_value_def last_index_def
        assign_value_def store_value_def group_tags_def)

lemma legal_value_head: "legal_value v \<Longrightarrow> v \<noteq> [] \<and> hd v \<noteq> CHR ''<''"
  by (cases v) (auto simp: legal_value_def illegal_characters_def)

lemma schema_facts:
  "node_value object_tag = ''<object>''" "node_value field_tag = ''<field>''"
  "has_child object_tag" "has_child field_tag"
  "find_child object_tag ''<obj_name>'' = Some (Node ''<obj_name>'' False None [])"
  "find_child object_tag ''<field>'' = Some field_tag"
  "find_child field_tag ''<name>'' = Some (Node ''<name>'' False None [])"
  "find_child field_tag ''<type>'' = Some (Node ''<type>'' False (Some [''int'', ''string'']) [])"
  "find_child field_tag ''<value>'' = Some (Node ''<value>'' False None [])"
  by (simp_all add: object_tag_def field_tag_def has_child_def find_child_def)

lemma matching_tag_facts:
  "matching_tag ''<object>'' = Inr ''</object>''" "matching_tag ''<field>'' = Inr ''</field>''"
  "matching_tag ''<obj_name>'' = Inr ''</obj_name>''" "matching_tag ''<name>'' = Inr ''</name>''"
  "matching_tag ''<type>'' = Inr ''</type>''" "matching_tag ''<value>'' = Inr ''</value>''"
  by (simp_all add: matching_tag_def)

lemma leaf_value_step:
  assumes st: "stack c = parent # below" and q: "queue c = tag # v # closing # q'"
    and parent: "has_child parent" "matching_tag (node_value parent) = Inr pclosing"
      "tag \<noteq> pclosing" "\<not> closing_shaped tag"
      "find_child parent tag = Some (Node tag False al [])"
    and mt: "matching_tag tag = Inr closing" "hd closing = CHR ''<''"
    and v: "v \<noteq> []" "hd v \<noteq> CHR ''<''" "\<not> closing_shaped v"
    and sv: "\<And>err :: string \<Rightarrow> string \<Rightarrow> string.
               set_value (current_object c) tag v err = (Inr True, obj, [])"
    and root: "tag \<noteq> node_value (conv_structure c)"
  shows "passes c
           (c\<lparr>queue := q', string_counter := string_counter c + 3,
                       current_object := obj\<rparr>)"
proof -
  let ?c1 = "c\<lparr>queue := v # closing # q', string_counter := string_counter c + 1,
               stack := Node tag False al [] # parent # below\<rparr>"
  have 1: "iteration c = Inr ?c1"
    using st q parent by (intro iteration_open_child) auto
  have 2: "iteration ?c1 =
             Inr (?c1\<lparr>queue := q', string_counter := string_counter ?c1 + 2,
                      current_object := obj, stack := parent # below\<rparr>)"
    using mt v sv by (intro iteration_value [where ok = True and closing = closing]) auto
  have f1: "closing_follows c"
    by (rule closing_follows_container [OF st parent(1)])
  have f2: "closing_follows ?c1"
    by (rule closing_follows_value [where closing = closing and v = v and q = q'
                                      and t = "Node tag False al []" and st = "parent # below"])
       (use mt root in simp_all)
  have p1: "passes c ?c1"
    using q f1 1 by (intro passes_one) auto
  have p2: "passes ?c1 (?c1\<lparr>queue := q', string_counter := string_counter ?c1 + 2,
                      current_object := obj, stack := parent # below\<rparr>)"
    using f2 2 by (intro passes_one) auto
  have e: "?c1\<lparr>queue := q', string_counter := string_counter ?c1 + 2,
                      current_object := obj, stack := parent # below\<rparr>
             = c\<lparr>queue := q', string_counter := string_counter c + 3,
                       current_object := obj\<rparr>"
    using st by simp
  from passes_trans [OF p1 p2] show ?thesis unfolding e .
qed

lemma type_facts:
  assumes "t = ''int'' \<or> t = ''string''"
  shows "t \<noteq> []" "hd t \<noteq> CHR ''<''" "\<not> closing_shaped t"
  using assms by (auto simp: closing_shaped_def)

lemma tag_facts:
  "\<not> closing_shaped ''<field>''" "\<not> closing_shaped ''<name>''" "\<not> closing_shaped ''<type>''"
  "\<not> closing_shaped ''<value>''" "\<not> closing_shaped ''<obj_name>''"
  by (simp_all add: closing_shaped_def)

lemma field_group_run:
  assumes st: "stack c = [object_tag]" and cs: "conv_structure c = object_tag"
    and q: "queue c = field_tokens (n, t, v) @ q'"
    and wf: "legal_value n" "legal_value v" "t = ''int'' \<or> t = ''string''"
      "\<not> closing_shaped n" "\<not> closing_shaped v"
    and sv: "\<And>err :: string \<Rightarrow> string \<Rightarrow> string.
               set_value (current_object c) ''<name>'' n err = (Inr True, obj1, [])"
    and obj1: "xml_structure obj1 = object_tag" "tags obj1 = T @ group_tags"
      "obj_values obj1 = V @ [Some n, None, None]" "length T = length V"
  shows "passes c
           (c\<lparr>queue := q', string_counter := string_counter c + 11,
                       current_object := obj1\<lparr>obj_values := V @ [Some n, Some t, Some v]\<rparr>\<rparr>)"
proof -
  let ?q1 = "[''<name>'', n, ''</name>'', ''<type>'', t, ''</type>'',
              ''<value>'', v, ''</value>'', ''</field>''] @ q'"
  let ?c1 = "c\<lparr>queue := ?q1, string_counter := string_counter c + 1,
               stack := [field_tag, object_tag]\<rparr>"
  have "iteration c = Inr ?c1"
    using st q
    by (intro iteration_open_child [where closing = "''</object>''" and s = "''<field>''"
                                     and t = object_tag and st = "[]"])
       (auto simp: field_tokens_def schema_facts matching_tag_facts tag_facts)
  with q closing_follows_container [OF st schema_facts(3)] have s1: "passes c ?c1"
    by (intro passes_one) (auto simp: field_tokens_def)
  let ?q2 = "[''<type>'', t, ''</type>'', ''<value>'', v, ''</value>'', ''</field>''] @ q'"
  let ?c2 = "?c1\<lparr>queue := ?q2, string_counter := string_counter ?c1 + 3,
                 current_object := obj1\<rparr>"
  have s2: "passes ?c1 ?c2"
    using wf sv legal_value_head [of n] cs
    by (intro leaf_value_step [where parent = field_tag and pclosing = "''</field>''"
                                and closing = "''</name>''" and tag = "''<name>''"
                                and v = n and al = None and below = "[object_tag]"])
       (auto simp: schema_facts matching_tag_facts tag_facts)
  let ?obj2 = "obj1\<lparr>obj_values := V @ [Some n, Some t, None]\<rparr>"
  let ?q3 = "[''<value>'', v, ''</value>'', ''</field>''] @ q'"
  let ?c3 = "?c2\<lparr>queue := ?q3, string_counter := string_counter ?c2 + 3,
                 current_object := ?obj2\<rparr>"
  have s3: "passes ?c2 ?c3"
    using wf obj1 type_facts [of t] cs
    by (intro leaf_value_step [where parent = field_tag and pclosing = "''</field>''"
                                and closing = "''</type>''" and tag = "''<type>''"
                                and v = t and al = "Some [''int'', ''string'']"
                                and below = "[object_tag]"])
       (auto simp: schema_facts matching_tag_facts tag_facts set_value_type)
  let ?obj3 = "obj1\<lparr>obj_values := V @ [Some n, Some t, Some v]\<rparr>"
  let ?q4 = "''</field>'' # q'"
  let ?c4 = "?c3\<lparr>queue := ?q4, string_counter := string_counter ?c3 + 3,
                 current_object := ?obj3\<rparr>"
  have sv3: "set_value ?obj2 ''<value>'' v err = (Inr True, ?obj3, [])" for err :: "string \<Rightarrow> string \<Rightarrow> string"
    using obj1 set_value_value [of ?obj2 T V "Some n" "Some t" v err] by simp
  have s4: "passes ?c3 ?c4"
    using wf legal_value_head [of v] sv3 cs
    by (intro leaf_value_step [where parent = field_tag and pclosing = "''</field>''"
                                and closing = "''</value>''" and tag = "''<value>''"
                                and v = v and al = None and below = "[object_tag]"])
       (auto simp: schema_facts matching_tag_facts tag_facts)
  let ?c5 = "?c4\<lparr>queue := q', string_counter := string_counter ?c4 + 1,
                 objects := objects ?c4, stack := [object_tag]\<rparr>"
  have "iteration ?c4 =
          Inr (?c4\<lparr>queue := q', string_counter := string_counter ?c4 + 1,
                 objects := (if node_value field_tag = node_value (conv_structure ?c4)
                             then objects ?c4 @ [current_object ?c4] else objects ?c4),
                 stack := [object_tag]\<rparr>)"
    by (intro iteration_close) (auto simp: schema_facts matching_tag_facts)
  then have "iteration ?c4 = Inr ?c5"
    using cs by (simp add: schema_facts)
  then have s5: "passes ?c4 ?c5"
    by (intro passes_one closing_follows_container [where t = field_tag and st = "[object_tag]"])
       (auto simp: schema_facts)
  have e: "?c5 = c\<lparr>queue := q', string_counter := string_counter c + 11,
                       current_object := ?obj3\<rparr>"
    using st by simp
  from passes_trans [OF s1 passes_trans [OF s2 passes_trans [OF s3 passes_trans [OF s4 s5]]]]
  show ?thesis unfolding e .
qed

lemma record_of_length:
  "length (tags (record_of (name, fs))) = length (obj_values (record_of (name, fs)))"
  by (induction fs) (auto simp: record_of_def group_tags_def group_values_def)

lemma record_of_snoc:
  "record_of (name, fs @ [(n, t, v)]) =
     \<lparr>xml_structure = object_tag,
      tags = tags (record_of (name, fs)) @ group_tags,
      obj_values = obj_values (record_of (name, fs)) @ [Some n, Some t, Some v]\<rparr>"
  by (simp add: record_of_def group_values_def)

lemma later_field_run:
  assumes st: "stack c = [object_tag]" and cs: "conv_structure c = object_tag"
    and q: "queue c = field_tokens (n, t, v) @ q'"
    and wf: "legal_value n" "legal_value v" "t = ''int'' \<or> t = ''string''"
      "\<not> closing_shaped n" "\<not> closing_shaped v"
    and obj: "current_object c = record_of (name, fs0)" and ne: "fs0 \<noteq> []"
  shows "passes c
           (c\<lparr>queue := q', string_counter := string_counter c + 11,
                       current_object := record_of (name, fs0 @ [(n, t, v)])\<rparr>)"
proof -
  from ne obtain fs1 a b d where fs0: "fs0 = fs1 @ [(a, b, d)]"
    by (cases fs0 rule: rev_cases) auto
  let ?T = "tags (record_of (name, fs1))"
  let ?V = "obj_values (record_of (name, fs1))"
  let ?obj1 = "(record_of (name, fs0))
                 \<lparr>tags := (?T @ group_tags) @ group_tags,
                  obj_values := (?V @ [Some a, Some b, Some d]) @ [Some n, None, None]\<rparr>"
  have len: "length ?T = length ?V" by (rule record_of_length)
  have sv: "set_value (current_object c) ''<name>'' n err = (Inr True, ?obj1, [])"
    for err :: "string \<Rightarrow> string \<Rightarrow> string"
    unfolding obj
    by (rule set_value_name_clone [where T = ?T and V = ?V and a = a and b = "Some b"
                                     and c = "Some d"])
       (simp_all add: fs0 record_of_snoc len)
  have "passes c
          (c\<lparr>queue := q', string_counter := string_counter c + 11,
                      current_object :=
                        ?obj1\<lparr>obj_values := (?V @ [Some a, Some b, Some d])
                                                @ [Some n, Some t, Some v]\<rparr>\<rparr>)"
    using st cs q wf sv
    by (rule field_group_run [where T = "?T @ group_tags"
                                and V = "?V @ [Some a, Some b, Some d]"])
       (simp_all add: fs0 record_of_snoc len group_tags_def)
  moreover have "?obj1\<lparr>obj_values := (?V @ [Some a, Some b, Some d])
                                                @ [Some n, Some t, Some v]\<rparr>
                 = record_of (name, fs0 @ [(n, t, v)])"
    by (simp add: fs0 record_of_def group_values_def)
  ultimately show ?thesis by simp
qed

lemma fields_run:
  assumes "stack c = [object_tag]" and "conv_structure c = object_tag"
    and "queue c = concat (map field_tokens fs) @ q'"
    and "list_all well_formed_field fs"
    and "list_all (\<lambda>(n, t, v). \<not> closing_shaped n \<and> \<not> closing_shaped v) fs"
    and "current_object c = record_of (name, fs0)" and "fs0 \<noteq> []"
  shows "passes c
           (c\<lparr>queue := q', string_counter := string_counter c + 11 * length fs,
                       current_object := record_of (name, fs0 @ fs)\<rparr>)"
  using assms
proof (induction fs arbitrary: c fs0)
  case Nil
  then have "c\<lparr>queue := q', string_counter := string_counter c + 11 * length ([] :: field_group list),
              current_object := record_of (name, fs0 @ [])\<rparr> = c"
    by (cases c) auto
  then show ?case by (simp add: passes.no_pass)
next
  case (Cons f fs)
  obtain n t v where f: "f = (n, t, v)" by (cases f)
  let ?c1 = "c\<lparr>queue := concat (map field_tokens fs) @ q',
               string_counter := string_counter c + 11,
               current_object := record_of (name, fs0 @ [(n, t, v)])\<rparr>"
  have 1: "passes c ?c1"
    using Cons.prems f
    by (intro later_field_run) (auto simp: well_formed_field_def)
  have 2: "passes ?c1
             (?c1\<lparr>queue := q', string_counter := string_counter ?c1 + 11 * length fs,
                            current_object := record_of (name, (fs0 @ [(n, t, v)]) @ fs)\<rparr>)"
    using Cons.prems by (intro Cons.IH) auto
  from passes_trans [OF 1 2] f show ?case by (simp add: add.assoc)
qed

lemma instance_run:
  assumes st: "stack c = []" and cs: "conv_structure c = object_tag"
    and q: "queue c = instance_tokens (name, fs) @ q'"
    and wf: "well_formed_instance (name, fs)" and ncs: "no_closing_shaped_value (name, fs)"
  shows "passes c
           (c\<lparr>queue := q', string_counter := string_counter c + 5 + 11 * length fs,
                       current_object := record_of (name, fs),
                       objects := objects c @ [record_of (name, fs)]\<rparr>)"
proof -
  from wf obtain f fs' where fs: "fs = f # fs'"
    by (cases fs) (auto simp: well_formed_instance_def)
  obtain n t v where f: "f = (n, t, v)" by (cases f)
  from wf have name: "legal_value name" by (simp add: well_formed_instance_def)
  from wf fs f have wff: "legal_value n" "legal_value v" "t = ''int'' \<or> t = ''string''"
    and wfs: "list_all well_formed_field fs'"
    by (auto simp: well_formed_instance_def well_formed_field_def)
  from ncs fs f have nc: "\<not> closing_shaped name" "\<not> closing_shaped n" "\<not> closing_shaped v"
    and ncs': "list_all (\<lambda>(n, t, v). \<not> closing_shaped n \<and> \<not> closing_shaped v) fs'"
    by (auto simp: no_closing_shaped_value_def)
  let ?rest = "concat (map field_tokens fs') @ ''</object>'' # q'"
  let ?q1 = "[''<obj_name>'', name, ''</obj_name>''] @ field_tokens (n, t, v) @ ?rest"
  have q1: "queue c = ''<object>'' # ?q1"
    using q fs f by (simp add: instance_tokens_def)
  let ?c1 = "c\<lparr>queue := ?q1, string_counter := string_counter c + 1,
               stack := [object_tag], current_object := new_XMLObject object_tag\<rparr>"
  have "iteration c = Inr ?c1"
    using iteration_open_root [of c ?q1] st q1 cs by (simp add: schema_facts)
  with q1 closing_follows_empty [OF st] have s1: "passes c ?c1"
    by (intro passes_one) auto
  let ?obj1 = "\<lparr>xml_structure = object_tag, tags = ''<obj_name>'' # group_tags,
                 obj_values = [Some name, None, None, None]\<rparr>"
  let ?c2 = "?c1\<lparr>queue := field_tokens (n, t, v) @ ?rest,
                 string_counter := string_counter ?c1 + 3, current_object := ?obj1\<rparr>"
  have s2: "passes ?c1 ?c2"
    using name nc legal_value_head [of name] cs
    by (intro leaf_value_step [where parent = object_tag and pclosing = "''</object>''"
                                and closing = "''</obj_name>''" and tag = "''<obj_name>''"
                                and v = name and al = None and below = "[]"])
       (auto simp: schema_facts matching_tag_facts tag_facts set_value_obj_name)
  let ?obj2 = "?obj1\<lparr>obj_values := [Some name] @ [Some n, None, None]\<rparr>"
  have sv: "set_value (current_object ?c2) ''<name>'' n err = (Inr True, ?obj2, [])"
    for err :: "string \<Rightarrow> string \<Rightarrow> string"
    using set_value_name_fresh [of ?obj1 "[''<obj_name>'']" "[Some name]" None None n err]
    by simp
  let ?c3 = "?c2\<lparr>queue := ?rest, string_counter := string_counter ?c2 + 11,
                 current_object := ?obj2\<lparr>obj_values := [Some name] @ [Some n, Some t, Some v]\<rparr>\<rparr>"
  have s3: "passes ?c2 ?c3"
    using wff nc sv cs
    by (intro field_group_run [where T = "[''<obj_name>'']" and V = "[Some name]"]) auto
  have o3: "?obj2\<lparr>obj_values := [Some name] @ [Some n, Some t, Some v]\<rparr> = record_of (name, [(n, t, v)])"
    by (simp add: record_of_def group_values_def)
  let ?c4 = "?c3\<lparr>queue := ''</object>'' # q',
                 string_counter := string_counter ?c3 + 11 * length fs',
                 current_object := record_of (name, [(n, t, v)] @ fs')\<rparr>"
  have s4: "passes ?c3 ?c4"
    using wfs ncs' o3 cs
    by (intro fields_run) auto
  let ?c5 = "?c4\<lparr>queue := q', string_counter := string_counter ?c4 + 1,
                 objects := objects ?c4 @ [current_object ?c4], stack := []\<rparr>"
  have "iteration ?c4 =
          Inr (?c4\<lparr>queue := q', string_counter := string_counter ?c4 + 1,
                 objects := (if node_value object_tag = node_value (conv_structure ?c4)
                             then objects ?c4 @ [current_object ?c4] else objects ?c4),
                 stack := []\<rparr>)"
    by (intro iteration_close) (simp_all add: schema_facts matching_tag_facts)
  then have "iteration ?c4 = Inr ?c5"
    using cs by simp
  then have s5: "passes ?c4 ?c5"
    by (intro passes_one closing_follows_container [where t = object_tag and st = "[]"])
       (auto simp: schema_facts)
  have e: "?c5 = c\<lparr>queue := q', string_counter := string_counter c + 5 + 11 * length fs,
                       current_object := record_of (name, fs),
                       objects := objects c @ [record_of (name, fs)]\<rparr>"
    using st fs f by simp
  from passes_trans [OF s1 passes_trans [OF s2 passes_trans [OF s3 passes_trans [OF s4 s5]]]]
  show ?thesis unfolding e .
qed

lemma document_run:
  assumes "stack c = []" and "conv_structure c = object_tag"
    and "queue c = document_tokens doc"
    and "well_formed doc" and "list_all no_closing_shaped_value doc"
  shows "\<exists>c'. passes c c' \<and> queue c' = [] \<and> objects c' = objects c @ map record_of doc
              \<and> error_stream c' = error_stream c"
  using assms
proof (induction doc arbitrary: c)
  case Nil
  then show ?case
    by (intro exI [of _ c]) (simp add: document_tokens_def passes.no_pass)
next
  case (Cons i doc)
  obtain name fs where i: "i = (name, fs)" by (cases i)
  let ?c1 = "c\<lparr>queue := document_tokens doc,
               string_counter := string_counter c + 5 + 11 * length fs,
               current_object := record_of (name, fs),
               objects := objects c @ [record_of (name, fs)]\<rparr>"
  have 1: "passes c ?c1"
    using Cons.prems i
    by (intro instance_run) (auto simp: document_tokens_def well_formed_def)
  have "\<exists>c'. passes ?c1 c' \<and> queue c' = [] \<and> objects c' = objects ?c1 @ map record_of doc
              \<and> error_stream c' = error_stream ?c1"
    using Cons.prems by (intro Cons.IH) (auto simp: well_formed_def)
  then obtain c' where c': "passes ?c1 c'" "queue c' = []"
    "objects c' = objects ?c1 @ map record_of doc" "error_stream c' = error_stream ?c1"
    by blast
  from passes_trans [OF 1 c'(1)] c'(2,3,4) i show ?case
    by (intro exI [of _ c']) simp
qed

lemma iteration_idle: "queue c = [] \<Longrightarrow> iteration c = Inr c"
  by (simp add: iteration_def read_string_def split: option.splits)

lemma iteration_consumes:
  "iteration c = Inr c' \<Longrightarrow> queue c \<noteq> [] \<Longrightarrow> length (queue c') < length (queue c)"
  by (auto simp: iteration_def read_string_def error_def
           split: option.splits list.splits sum.splits prod.splits if_splits)

lemma iteration_more:
  assumes q: "queue c = s # r"
    and v: "r \<noteq> [] \<or>
            (\<forall>t closing. stack_top (stack c) = Some t \<longrightarrow> matching_tag (node_value t) = Inr closing
               \<longrightarrow> s = closing \<or> (length s > 2 \<and> s ! 1 = CHR ''/'') \<or> has_child t
                   \<or> s = [] \<or> s ! 0 = CHR ''<'')"
  shows "iteration (c\<lparr>queue := queue c @ rest\<rparr>) =
           (case iteration c of Inl e \<Rightarrow> Inl e | Inr c1 \<Rightarrow> Inr (c1\<lparr>queue := queue c1 @ rest\<rparr>))"
proof (cases "stack_top (stack c)")
  case None
  then show ?thesis
    using q by (simp add: iteration_def read_string_def error_def)
next
  case (Some t)
  show ?thesis
  proof (cases "matching_tag (node_value t)")
    case (Inl e)
    then show ?thesis
      using Some q by (simp add: iteration_def read_string_def)
  next
    case (Inr closing)
    consider (close) "s = closing"
      | (shaped) "s \<noteq> closing" "length s > 2 \<and> s ! 1 = CHR ''/''"
      | (container) "s \<noteq> closing" "\<not> (length s > 2 \<and> s ! 1 = CHR ''/'')" "has_child t"
      | (leaf) "s \<noteq> closing" "\<not> (length s > 2 \<and> s ! 1 = CHR ''/'')" "\<not> has_child t"
      by blast
    then show ?thesis
    proof cases
      case close
      then show ?thesis
        using Some Inr q by (simp add: iteration_def read_string_def)
    next
      case shaped
      then show ?thesis
        using Some Inr q by (simp add: iteration_def read_string_def error_def)
    next
      case container
      then show ?thesis
        using Some Inr q
        by (cases "find_child t s") (auto simp: iteration_def read_string_def error_def)
    next
      case leaf
      show ?thesis
      proof (cases "s = [] \<or> s ! 0 = CHR ''<''")
        case True
        then show ?thesis
          using leaf Some Inr q by (auto simp: iteration_def read_string_def error_def)
      next
        case False
        with v leaf Some Inr have "r \<noteq> []" by blast
        then obtain closing_tag r' where r: "r = closing_tag # r'" by (cases r) auto
        obtain res obj messages where
          sv: "set_value (current_object c) (node_value t) s
                 (error_message (string_counter c + 1)) = (res, obj, messages)"
          by (cases "set_value (current_object c) (node_value t) s
                       (error_message (string_counter c + 1))") auto
        show ?thesis
          using False leaf Some Inr q r sv
          by (cases res) (auto simp: iteration_def read_string_def error_def)
      qed
    qed
  qed
qed

lemma iteration_value_alone:
  assumes q: "queue c = [s]"
    and top: "stack_top (stack c) = Some t" and mt: "matching_tag (node_value t) = Inr closing"
    and leaf: "s \<noteq> closing" "\<not> (length s > 2 \<and> s ! 1 = CHR ''/'')" "\<not> has_child t"
      "s \<noteq> []" "s ! 0 \<noteq> CHR ''<''"
    and f: "closing_follows (c\<lparr>queue := s # closing_tag # rest\<rparr>)"
    and i: "iteration (c\<lparr>queue := s # closing_tag # rest\<rparr>) = Inr C"
  shows "\<exists>c1. iteration c = Inr c1 \<and> queue c1 = []
              \<and> closing_follows (c1\<lparr>queue := closing_tag # rest\<rparr>)
              \<and> iteration (c1\<lparr>queue := closing_tag # rest\<rparr>) = Inr C"
proof -
  obtain res obj messages where
    sv: "set_value (current_object c) (node_value t) s
           (error_message (string_counter c + 1)) = (res, obj, messages)"
    by (cases "set_value (current_object c) (node_value t) s
                 (error_message (string_counter c + 1))") auto
  from f top mt leaf have cl: "closing_tag = closing"
    and root: "node_value t \<noteq> node_value (conv_structure c)"
    by (auto simp: closing_follows_def)
  show ?thesis
  proof (cases res)
    case (Inl e)
    then show ?thesis
      using leaf top mt q i sv
      by (auto simp: iteration_def read_string_def error_def)
  next
    case (Inr ok)
    let ?c1 = "c\<lparr>queue := [], string_counter := string_counter c + 1,
                 current_object := obj, error_stream := error_stream c @ messages\<rparr>"
    have 1: "iteration c = Inr ?c1"
      using leaf top mt q sv Inr
      by (auto simp: iteration_def read_string_def error_def)
    have 2: "C = ?c1\<lparr>queue := rest, string_counter := string_counter c + 2,
                     stack := pop (stack c)\<rparr>"
      using leaf top mt q sv Inr i cl
      by (auto simp: iteration_def read_string_def error_def)
    have 3: "iteration (?c1\<lparr>queue := closing_tag # rest\<rparr>) = Inr C"
      unfolding 2
      using top mt cl root
      by (simp add: iteration_def read_string_def)
    have 4: "closing_follows (?c1\<lparr>queue := closing_tag # rest\<rparr>)"
      using top mt cl
      by (simp add: closing_follows_def split: list.splits)
    from 1 3 4 show ?thesis by simp
  qed
qed

lemma iteration_partial:
  assumes q: "queue c = s # r"
    and f: "closing_follows (c\<lparr>queue := queue c @ rest\<rparr>)"
    and i: "iteration (c\<lparr>queue := queue c @ rest\<rparr>) = Inr C"
  shows "\<exists>c1. iteration c = Inr c1 \<and> passes (c1\<lparr>queue := queue c1 @ rest\<rparr>) C"
proof (cases "r \<noteq> [] \<or> rest = [] \<or>
            (\<forall>t closing. stack_top (stack c) = Some t \<longrightarrow> matching_tag (node_value t) = Inr closing
               \<longrightarrow> s = closing \<or> (length s > 2 \<and> s ! 1 = CHR ''/'') \<or> has_child t
                   \<or> s = [] \<or> s ! 0 = CHR ''<'')")
  case True
  have "iteration (c\<lparr>queue := queue c @ rest\<rparr>) =
           (case iteration c of Inl e \<Rightarrow> Inl e | Inr c1 \<Rightarrow> Inr (c1\<lparr>queue := queue c1 @ rest\<rparr>))"
  proof (cases "rest = []")
    case True
    then show ?thesis by (simp split: sum.splits)
  next
    case False
    with True q show ?thesis by (intro iteration_more) auto
  qed
  with i obtain c1 where "iteration c = Inr c1" "C = c1\<lparr>queue := queue c1 @ rest\<rparr>"
    by (auto split: sum.splits)
  then show ?thesis by (auto intro: passes.no_pass)
next
  case False
  then obtain t closing closing_tag rest' where
    r: "r = []" and rest: "rest = closing_tag # rest'"
    and top: "stack_top (stack c) = Some t" and mt: "matching_tag (node_value t) = Inr closing"
    and leaf: "s \<noteq> closing" "\<not> (length s > 2 \<and> s ! 1 = CHR ''/'')" "\<not> has_child t"
      "s \<noteq> []" "s ! 0 \<noteq> CHR ''<''"
    by (cases rest) auto
  from q r have q1: "queue c = [s]" by simp
  from f i q1 rest have f': "closing_follows (c\<lparr>queue := s # closing_tag # rest'\<rparr>)"
    and i': "iteration (c\<lparr>queue := s # closing_tag # rest'\<rparr>) = Inr C"
    by simp_all
  from iteration_value_alone [OF q1 top mt leaf f' i']
  obtain c1 where c1: "iteration c = Inr c1" "queue c1 = []"
    "closing_follows (c1\<lparr>queue := closing_tag # rest'\<rparr>)"
    "iteration (c1\<lparr>queue := closing_tag # rest'\<rparr>) = Inr C"
    by blast
  have "passes (c1\<lparr>queue := closing_tag # rest'\<rparr>) C"
    using c1(3,4) by (intro passes_one) simp_all
  with c1(1,2) rest show ?thesis by simp
qed

lemma passes_end: "passes c cf \<Longrightarrow> queue c = [] \<Longrightarrow> cf = c"
  by (cases rule: passes.cases) auto

lemma passes_step:
  assumes "passes c cf" and "queue cf = []" and "queue c \<noteq> []"
  shows "\<exists>c'. closing_follows c \<and> iteration c = Inr c' \<and> passes c' cf"
  using assms by (cases rule: passes.cases) auto

lemma run_loop_arrivals:
  assumes "passes (c\<lparr>queue := queue c @ concat arrivals\<rparr>) cf" and "queue cf = []"
  shows "run_loop running arrivals c = (if running then None else Some (Inr cf))"
  using assms
proof (induction running arrivals c rule: run_loop.induct)
  case (1 running batch arrivals c)
  let ?c0 = "c\<lparr>queue := queue c @ batch\<rparr>"
  let ?C0 = "?c0\<lparr>queue := queue ?c0 @ concat arrivals\<rparr>"
  have full: "c\<lparr>queue := queue c @ concat (batch # arrivals)\<rparr> = ?C0"
    by simp
  from "1.prems"(1) have p: "passes ?C0 cf"
    unfolding full .
  show ?case
  proof (cases "queue ?c0")
    case Nil
    then have it: "iteration ?c0 = Inr ?c0" by (rule iteration_idle)
    from "1.IH" [OF it p "1.prems"(2)] it show ?thesis
      by (simp add: run_loop.simps)
  next
    case (Cons s r)
    then have ne: "queue ?C0 \<noteq> []" by simp
    from passes_step [OF p "1.prems"(2) ne]
    obtain C where C: "closing_follows ?C0" "iteration ?C0 = Inr C" "passes C cf"
      by blast
    from iteration_partial [OF Cons C(1,2)]
    obtain c1 where c1: "iteration ?c0 = Inr c1"
      "passes (c1\<lparr>queue := queue c1 @ concat arrivals\<rparr>) C"
      by blast
    from passes_trans [OF c1(2) C(3)]
    have "passes (c1\<lparr>queue := queue c1 @ concat arrivals\<rparr>) cf" .
    from "1.IH" [OF c1(1) this "1.prems"(2)] c1(1) show ?thesis
      by (simp add: run_loop.simps)
  qed
next
  case (2 running c)
  from "2.prems" have p: "passes c cf" by simp
  show ?case
  proof (cases "queue c = []")
    case True
    with passes_end [OF p] show ?thesis
      by (simp add: run_loop.simps)
  next
    case False
    from passes_step [OF p "2.prems"(2) False]
    obtain c' where c': "iteration c = Inr c'" "passes c' cf" by auto
    from c'(2) have "passes (c'\<lparr>queue := queue c' @ concat []\<rparr>) cf" by simp
    from "2.IH" [OF _ False c'(1) this "2.prems"(2)] False c'(1) show ?thesis
      by (simp add: run_loop.simps)
  qed
qed

lemma run_loop_flag_stays:
  "run_loop True arrivals c \<noteq> Some (Inr c')"
  by (induction "True" arrivals c rule: run_loop.induct)
     (auto simp: run_loop.simps split: sum.splits)

lemma group_values_tuple: "group_values (n, t, v) = [Some n, Some t, Some v]"
  by (simp add: group_values_def)

lemma get_value_at:
  assumes "tags obj = P @ x # R" and "obj_values obj = PV @ y # RV" and "length P = length PV"
  shows "get_value obj x (int (length P)) = Inr (y, int (length P))"
  using assms by (simp add: get_value_def nth_append)

lemma get_value_end:
  "int (length (tags obj)) \<le> i \<Longrightarrow> get_value obj x i = Inr (None, - 1)"
  by (simp add: get_value_def)

lemma fields_step_group:
  assumes t: "tags obj = P @ group_tags @ R"
    and v: "obj_values obj = PV @ [Some n, Some t, Some v] @ RV"
    and len: "length P = length PV" and ne: "P \<noteq> []"
    and idx: "index = int (length P) - 1"
    and valid: "t = ''int'' \<and> isdigit v \<or> t = ''string''"
  shows "fields_step obj k name index correct st =
           Continue (index + 3) True
             (put_line (if \<not> correct then begin_object st name else st) (field_line n t v))"
proof -
  have "get_value obj ''<name>'' (int (length P)) = Inr (Some n, int (length P))"
    using t v len by (intro get_value_at [where R = "[''<type>'', ''<value>''] @ R"
          and RV = "[Some t, Some v] @ RV"]) (simp_all add: group_tags_def)
  then have 1: "get_value obj ''<name>'' (index + 1) = Inr (Some n, index + 1)"
    using idx by simp
  have "get_value obj ''<type>'' (int (length (P @ [''<name>'']))) =
             Inr (Some t, int (length (P @ [''<name>''])))"
    using t v len by (intro get_value_at [where R = "[''<value>''] @ R"
          and RV = "[Some v] @ RV" and PV = "PV @ [Some n]"]) (simp_all add: group_tags_def)
  moreover have "int (length (P @ [''<name>''])) = index + 1 + 1" using idx by simp
  ultimately have 2: "get_value obj ''<type>'' (index + 1 + 1) = Inr (Some t, index + 1 + 1)"
    by simp
  have "get_value obj ''<value>'' (int (length (P @ [''<name>'', ''<type>'']))) =
             Inr (Some v, int (length (P @ [''<name>'', ''<type>''])))"
    using t v len by (intro get_value_at [where R = R
          and RV = RV and PV = "PV @ [Some n, Some t]"]) (simp_all add: group_tags_def)
  moreover have "int (length (P @ [''<name>'', ''<type>''])) = index + 1 + 1 + 1"
    using idx by simp
  ultimately have 3: "get_value obj ''<value>'' (index + 1 + 1 + 1) = Inr (Some v, index + 3)"
    by simp
  from ne idx have 4: "index \<noteq> - 1" "index + 1 \<noteq> - 1" by simp_all
  show ?thesis
    unfolding fields_step_def using 1 2 3 4 valid by auto
qed

lemma fields_loop_groups:
  assumes "tags obj = P @ concat (map (\<lambda>f. group_tags) fs)"
    and "obj_values obj = PV @ concat (map group_values fs)"
    and "length P = length PV" and "P \<noteq> []" and "index = int (length P) - 1"
    and "list_all well_formed_field fs"
  shows "fields_loop obj k name index correct st =
           Some (Inr (correct \<or> fs \<noteq> [],
                      if fs = [] then st
                      else st\<lparr>json := json st @ (if correct then [] else [object_header name])
                                       @ map (\<lambda>(n, t, v). field_line n t v) fs,
                              object_names := object_names st
                                       @ (if correct then [] else [name])\<rparr>))"
  using assms
proof (induction fs arbitrary: P PV index correct st)
  case Nil
  then have "fields_step obj k name index correct st = Finished correct st"
    by (simp add: fields_step_def get_value_end)
  then show ?case by (subst fields_loop.simps) simp
next
  case (Cons f fs)
  obtain n t v where f: "f = (n, t, v)" by (cases f)
  let ?st1 = "put_line (if \<not> correct then begin_object st name else st) (field_line n t v)"
  have step: "fields_step obj k name index correct st = Continue (index + 3) True ?st1"
    using Cons.prems f
    by (intro fields_step_group [where R = "concat (map (\<lambda>f. group_tags) fs)"
          and RV = "concat (map group_values fs)" and P = P and PV = PV])
       (auto simp: group_values_tuple well_formed_field_def)
  have rest: "fields_loop obj k name (index + 3) True ?st1 =
          Some (Inr (True \<or> fs \<noteq> [],
                     if fs = [] then ?st1
                     else ?st1\<lparr>json := json ?st1 @ (if True then [] else [object_header name])
                                       @ map (\<lambda>(n, t, v). field_line n t v) fs,
                               object_names := object_names ?st1
                                       @ (if True then [] else [name])\<rparr>))"
    using Cons.prems f
    by (intro Cons.IH [where PV = "PV @ group_values f" and P = "P @ group_tags"])
       (auto simp: group_values_tuple group_tags_def)
  have a: "fields_loop obj k name index correct st =
             fields_loop obj k name (index + 3) True ?st1"
    by (subst fields_loop.simps) (simp add: step)
  have b: "(True \<or> fs \<noteq> [],
            if fs = [] then ?st1
            else ?st1\<lparr>json := json ?st1 @ (if True then [] else [object_header name])
                              @ map (\<lambda>(n, t, v). field_line n t v) fs,
                      object_names := object_names ?st1
                              @ (if True then [] else [name])\<rparr>)
           = (correct \<or> f # fs \<noteq> [],
              if f # fs = [] then st
              else st\<lparr>json := json st @ (if correct then [] else [object_header name])
                               @ map (\<lambda>(n, t, v). field_line n t v) (f # fs),
                      object_names := object_names st
                               @ (if correct then [] else [name])\<rparr>)"
    by (cases correct; cases "fs = []") (simp_all add: put_line_def begin_object_def f)
  show ?case by (simp only: a rest b)
qed

lemma get_value_obj_name:
  "get_value (record_of (name, fs)) ''<obj_name>'' 0 = Inr (Some name, 0)"
  by (simp add: get_value_def record_of_def)

lemma convert_object_record_of:
  assumes "well_formed_instance (name, fs)" and "name \<notin> set (object_names st)"
  shows "convert_object (record_of (name, fs)) k st =
           Some (Inr (st\<lparr>json := json st @ block_lines (name, fs),
                          object_names := object_names st @ [name]\<rparr>))"
proof -
  from assms(1) have ne: "fs \<noteq> []" and wf: "list_all well_formed_field fs"
    by (auto simp: well_formed_instance_def)
  have "fields_loop (record_of (name, fs)) k name 0 False st =
           Some (Inr (False \<or> fs \<noteq> [],
                      if fs = [] then st
                      else st\<lparr>json := json st @ (if False then [] else [object_header name])
                                       @ map (\<lambda>(n, t, v). field_line n t v) fs,
                              object_names := object_names st
                                       @ (if False then [] else [name])\<rparr>))"
    using wf
    by (intro fields_loop_groups [where PV = "[Some name]" and P = "[''<obj_name>'']"])
       (simp_all add: record_of_def)
  with ne have "fields_loop (record_of (name, fs)) k name 0 False st =
           Some (Inr (True,
                      st\<lparr>json := json st @ object_header name
                                       # map (\<lambda>(n, t, v). field_line n t v) fs,
                         object_names := object_names st @ [name]\<rparr>))"
    by simp
  with assms(2) show ?thesis
    by (simp add: convert_object_def get_value_obj_name put_line_def block_lines_def)
qed

lemma convert_objects_record_of:
  assumes "well_formed doc" and "distinct (map fst doc)"
    and "set (map fst doc) \<inter> set (object_names st) = {}"
  shows "convert_objects (map record_of doc) k st =
           Some (Inr (st\<lparr>json := json st @ concat (map block_lines doc),
                          object_names := object_names st @ map fst doc\<rparr>))"
  using assms
proof (induction doc arbitrary: k st)
  case Nil
  then show ?case by simp
next
  case (Cons i doc)
  obtain name fs where i: "i = (name, fs)" by (cases i)
  let ?st1 = "st\<lparr>json := json st @ block_lines (name, fs),
                 object_names := object_names st @ [name]\<rparr>"
  have 1: "convert_object (record_of (name, fs)) (k + 1) st = Some (Inr ?st1)"
    using Cons.prems i by (intro convert_object_record_of) (auto simp: well_formed_def)
  have 2: "convert_objects (map record_of doc) (k + 1) ?st1 =
           Some (Inr (?st1\<lparr>json := json ?st1 @ concat (map block_lines doc),
                          object_names := object_names ?st1 @ map fst doc\<rparr>))"
    using Cons.prems i by (intro Cons.IH) (auto simp: well_formed_def)
  from 1 2 i show ?case by simp
qed

lemma convert_record_of:
  assumes "well_formed doc" and "distinct (map fst doc)"
  shows "convert (map record_of doc) =
           Some (Inr (json_open # concat (map block_lines doc) @ [json_close], []))"
  using convert_objects_record_of [OF assms, of "\<lparr>json = [json_open], object_names = [], obj_errors = []\<rparr>" 0]
  by (simp add: convert_def)

lemma written_blocks_eq:
  "doc \<noteq> [] \<Longrightarrow>
   written_blocks doc =
     concat (map (entry_lines False) (butlast doc)) @ entry_lines True (last doc) @ [json_close]"
  by (induction doc rule: written_blocks.induct) auto

lemma flush_loop_Cons:
  "flush_loop x (y # r) =
     (if y \<in> set no_trailing_comma then strip_commas x else x) # flush_loop y r"
  by (simp add: strip_commas_def)

lemma filter_absent: "c \<notin> set xs \<Longrightarrow> filter (\<lambda>x. x \<noteq> c) xs = xs"
  by (induction xs) auto

lemma strip_field_line_eq:
  assumes "CHR '','' \<notin> set n" and "CHR '','' \<notin> set v"
  shows "strip_commas (field_line n t v) = field_entry (n, t, v) @ [NL]"
proof -
  have "int (count_list (field_line n t v) CHR '','') \<le> int (length (field_line n t v)) - 2"
    using count_list_le_length [of n "CHR '',''"] count_list_le_length [of v "CHR '',''"]
    by (simp add: field_line_def)
  then have "strip_commas (field_line n t v) = filter (\<lambda>x. x \<noteq> CHR '','') (field_line n t v)"
    by (rule strip_all)
  also have "\<dots> = field_entry (n, t, v) @ [NL]"
    using assms by (simp add: field_line_def field_entry_def filter_absent)
  finally show ?thesis .
qed

lemma field_line_entry: "field_entry (n, t, v) @ [CHR '','', NL] = field_line n t v"
  by (simp add: field_line_def field_entry_def)

lemma flush_fields:
  assumes "case last (f # fs) of (n, t, v) \<Rightarrow> CHR '','' \<notin> set n \<and> CHR '','' \<notin> set v"
  shows "flush_loop (case f of (n, t, v) \<Rightarrow> field_line n t v)
           (map (\<lambda>(n, t, v). field_line n t v) fs @ object_close # z)
         = map (\<lambda>f. field_entry f @ '','' @ [NL]) (butlast (f # fs))
           @ [field_entry (last (f # fs)) @ [NL]] @ flush_loop object_close z"
  using assms
proof (induction fs arbitrary: f)
  case Nil
  obtain n t v where f: "f = (n, t, v)" by (cases f)
  with Nil show ?case
    by (simp add: flush_loop_Cons closers strip_field_line_eq del: flush_loop.simps)
next
  case (Cons g fs)
  obtain n t v where f: "f = (n, t, v)" by (cases f)
  obtain n' t' v' where g: "g = (n', t', v')" by (cases g)
  from Cons.prems have "case last (g # fs) of (n, t, v) \<Rightarrow> CHR '','' \<notin> set n \<and> CHR '','' \<notin> set v"
    by simp
  from Cons.IH [OF this] f g show ?case
    by (simp add: flush_loop_Cons field_line_plain field_line_entry
             del: flush_loop.simps)
qed

lemma flush_block:
  assumes "fs \<noteq> []" and "last_group_comma_free (name, fs)"
  shows "flush_loop (object_header name)
           (map (\<lambda>(n, t, v). field_line n t v) fs @ object_close # z)
         = object_header name # map (\<lambda>f. field_entry f @ '','' @ [NL]) (butlast fs)
           @ [field_entry (last fs) @ [NL]] @ flush_loop object_close z"
proof -
  from assms(1) obtain f fs' where fs: "fs = f # fs'" by (cases fs) auto
  obtain n t v where f: "f = (n, t, v)" by (cases f)
  from assms(2) fs have
    "case last (f # fs') of (n, t, v) \<Rightarrow> CHR '','' \<notin> set n \<and> CHR '','' \<notin> set v"
    by (simp add: last_group_comma_free_def)
  from flush_fields [OF this, of z] fs f show ?thesis
    by (simp add: flush_loop_Cons field_line_plain del: flush_loop.simps)
qed

lemma block_lines_tuple:
  "block_lines (name, fs) =
     object_header name # map (\<lambda>(n, t, v). field_line n t v) fs @ [object_close]"
  by (simp add: block_lines_def)

lemma entry_lines_tuple:
  "entry_lines final (name, fs) =
     object_header name # map (\<lambda>f. field_entry f @ '','' @ [NL]) (butlast fs)
     @ [field_entry (last fs) @ [NL]]
     @ [if final then [TAB] @ '' }'' @ [NL] else [TAB] @ '' },'' @ [NL]]"
  by (simp add: entry_lines_def)

lemma flush_blocks:
  assumes "list_all (\<lambda>(name, fs). fs \<noteq> []) (i # doc)"
    and "list_all last_group_comma_free (i # doc)"
  shows "flush_loop (hd (block_lines i)) (tl (block_lines i) @ concat (map block_lines doc) @ [json_close])
         = written_blocks (i # doc)"
  using assms
proof (induction doc arbitrary: i)
  case Nil
  obtain name fs where i: "i = (name, fs)" by (cases i)
  with Nil have "fs \<noteq> []" "last_group_comma_free (name, fs)" by auto
  from flush_block [OF this, of "[json_close]"] i show ?case
    by (simp add: block_lines_tuple entry_lines_tuple flush_loop_Cons closers strip_object_close
             del: flush_loop.simps(2))
next
  case (Cons j doc)
  obtain name fs where i: "i = (name, fs)" by (cases i)
  obtain name' fs' where j: "j = (name', fs')" by (cases j)
  from Cons.prems i have h: "fs \<noteq> []" "last_group_comma_free (name, fs)" by auto
  from Cons.prems have "flush_loop (hd (block_lines j))
       (tl (block_lines j) @ concat (map block_lines doc) @ [json_close]) = written_blocks (j # doc)"
    by (intro Cons.IH) auto
  with flush_block [OF h, of "block_lines j @ concat (map block_lines doc) @ [json_close]"] i j
  show ?case
    by (simp add: block_lines_tuple entry_lines_tuple flush_loop_Cons object_header_plain
          object_close_def del: flush_loop.simps)
qed

lemma flush_document:
  assumes "doc \<noteq> []" and "list_all (\<lambda>(name, fs). fs \<noteq> []) doc"
    and "list_all last_group_comma_free doc"
  shows "flush k (json_open # concat (map block_lines doc) @ [json_close])
         = Some (Some (expected_output doc), [])"
proof -
  from assms(1) obtain i doc' where doc: "doc = i # doc'" by (cases doc) auto
  obtain name fs where i: "i = (name, fs)" by (cases i)
  have b: "block_lines i = object_header name # tl (block_lines i)"
    "hd (block_lines i) = object_header name" "tl (block_lines i) \<noteq> []"
    using i by (simp_all add: block_lines_tuple)
  have "flush k (json_open # concat (map block_lines doc) @ [json_close])
        = Some (Some (json_open # flush_loop (hd (block_lines i))
                        (tl (block_lines i) @ concat (map block_lines doc') @ [json_close])), [])"
    using b doc
    by (cases "tl (block_lines i)") (auto simp: flush_def simp del: flush_loop.simps)
  also have "flush_loop (hd (block_lines i))
                        (tl (block_lines i) @ concat (map block_lines doc') @ [json_close])
             = written_blocks doc"
    using assms(2,3) unfolding doc by (rule flush_blocks)
  finally show ?thesis
    using assms(1) by (simp add: expected_output_def written_blocks_eq)
qed

lemma well_formed_nonempty:
  "well_formed doc \<Longrightarrow> list_all (\<lambda>(name, fs). fs \<noteq> []) doc"
  by (auto simp: well_formed_def well_formed_instance_def list_all_iff)

lemma document_run_flag_stays:
  assumes "well_formed doc" and "list_all no_closing_shaped_value doc"
    and "q @ concat arrivals = document_tokens doc"
  shows "run True arrivals (new_Converter q object_tag) = None"
proof -
  let ?c = "new_Converter q object_tag"
  let ?C = "?c\<lparr>queue := queue ?c @ concat arrivals\<rparr>"
  have "\<exists>c'. passes ?C c' \<and> queue c' = [] \<and> objects c' = objects ?C @ map record_of doc
              \<and> error_stream c' = error_stream ?C"
    using assms by (intro document_run) (simp_all add: new_Converter_def)
  then obtain c' where p: "passes ?C c'" "queue c' = []" by blast
  from run_loop_arrivals [OF p, of True] show ?thesis by (simp add: run_def)
qed

text \<open>
  C1, as stated: for every well-formed input the output has exactly one entry for every
  top-level instance. Two well-formed instances of the same name give one entry, for the
  first, and a message about the second.
\<close>

theorem well_formed_document_counterexample:
  "well_formed duplicate_doc \<and> length duplicate_doc = 2
   \<and> (case run False [] (new_Converter (document_tokens duplicate_doc) object_tag) of
         Some (Inr (c', written)) \<Rightarrow>
           written = Some [json_open, object_header ''A'',
                           [TAB, TAB, QUOTE] @ ''count'' @ [QUOTE] @ '': 5'' @ [NL],
                           [TAB] @ '' }'' @ [NL], json_close]
           \<and> error_stream c' = [duplicate_message 2 ''A'']
       | _ \<Rightarrow> False)"
  by code_simp

text \<open>
  C1, amended: for every well-formed input whose instances have different names, where no
  name or value has the shape of a closing tag and the last field group of every instance
  has no comma in its name or value, however the strings of the input are split into
  those on the queue when the loop starts and those the lexer puts while it runs, and
  provided the lexer's flag reads \<^verbatim>\<open>False\<close> once the lexer has ended, \<^verbatim>\<open>run\<close> returns, sends
  no message, and writes the opening line, one entry for every instance, in order, under
  its name, with one line \<^verbatim>\<open>"name": value\<close> for every field group, the value in double
  quotes exactly when the type is \<^verbatim>\<open>string\<close>, and the closing line; with no instance it
  writes nothing.
\<close>

theorem well_formed_document_output:
  assumes "well_formed doc" and "distinct (map fst doc)"
    and "list_all no_closing_shaped_value doc" and "list_all last_group_comma_free doc"
    and "q @ concat arrivals = document_tokens doc"
  shows "\<exists>c'. run False arrivals (new_Converter q object_tag) =
                Some (Inr (c', if doc = [] then None else Some (expected_output doc)))
              \<and> error_stream c' = []"
proof -
  let ?c = "new_Converter q object_tag"
  let ?C = "?c\<lparr>queue := queue ?c @ concat arrivals\<rparr>"
  have "\<exists>c'. passes ?C c' \<and> queue c' = [] \<and> objects c' = objects ?C @ map record_of doc
              \<and> error_stream c' = error_stream ?C"
    using assms(1,3,5) by (intro document_run) (simp_all add: new_Converter_def)
  then obtain c' where p: "passes ?C c'" "queue c' = []"
    and objs: "objects c' = map record_of doc" and errs: "error_stream c' = []"
    by (auto simp: new_Converter_def)
  from run_loop_arrivals [OF p, of False]
  have loop: "run_loop False arrivals ?c = Some (Inr c')" by simp
  show ?thesis
  proof (cases "doc = []")
    case True
    with loop objs errs show ?thesis by (simp add: run_def serialize_def)
  next
    case False
    have conv: "convert (objects c') =
                  Some (Inr (json_open # concat (map block_lines doc) @ [json_close], []))"
      unfolding objs using assms(1,2) by (rule convert_record_of)
    have fl: "flush (string_counter c') (json_open # concat (map block_lines doc) @ [json_close])
                = Some (Some (expected_output doc), [])"
      using False well_formed_nonempty [OF assms(1)] assms(4) by (rule flush_document)
    from False objs have "length (objects c') > 0" by simp
    with loop conv fl errs False
    have "run False arrivals ?c =
            Some (Inr (c'\<lparr>error_stream := []\<rparr>, Some (expected_output doc)))"
      by (simp add: run_def serialize_def)
    with False show ?thesis by auto
  qed
qed

theorem well_formed_document_output_witness:
  "well_formed sample_doc \<and> distinct (map fst sample_doc)
   \<and> list_all no_closing_shaped_value sample_doc \<and> list_all last_group_comma_free sample_doc
   \<and> sample_queue @ concat sample_arrivals = document_tokens sample_doc
   \<and> expected_output sample_doc =
       [json_open, object_header ''Alpha'',
        [TAB, TAB, QUOTE] @ ''count'' @ [QUOTE] @ '': 5,'' @ [NL],
        [TAB, TAB, QUOTE] @ ''label'' @ [QUOTE] @ '': '' @ [QUOTE] @ ''x y'' @ [QUOTE, NL],
        [TAB] @ '' },'' @ [NL],
        object_header ''Beta'',
        [TAB, TAB, QUOTE] @ ''size'' @ [QUOTE] @ '': 12'' @ [NL],
        [TAB] @ '' }'' @ [NL], json_close]
   \<and> (\<exists>c'. run False sample_arrivals (new_Converter sample_queue object_tag) =
                Some (Inr (c', if sample_doc = [] then None
                               else Some (expected_output sample_doc)))
              \<and> error_stream c' = [])"
proof -
  have h: "well_formed sample_doc" "distinct (map fst sample_doc)"
    "list_all no_closing_shaped_value sample_doc" "list_all last_group_comma_free sample_doc"
    "sample_queue @ concat sample_arrivals = document_tokens sample_doc"
    by code_simp+
  have e: "expected_output sample_doc =
       [json_open, object_header ''Alpha'',
        [TAB, TAB, QUOTE] @ ''count'' @ [QUOTE] @ '': 5,'' @ [NL],
        [TAB, TAB, QUOTE] @ ''label'' @ [QUOTE] @ '': '' @ [QUOTE] @ ''x y'' @ [QUOTE, NL],
        [TAB] @ '' },'' @ [NL],
        object_header ''Beta'',
        [TAB, TAB, QUOTE] @ ''size'' @ [QUOTE] @ '': 12'' @ [NL],
        [TAB] @ '' }'' @ [NL], json_close]"
    by code_simp
  from well_formed_document_output [OF h] h e show ?thesis by blast
qed

end
